theory Spec2Isabelle
  imports Main "HOL-Library.Word" "HOL-Library.Multiset"
begin

section \<open>Channels\<close>

text \<open>
  The Go source (\<^verbatim>\<open>batch.go\<close>) coordinates its goroutines through unbuffered channels and
  one mutex. A channel is modelled by its history: the values whose send has completed, in
  the order of completion, and whether the channel has been closed. Each entry of the
  history also records which goroutine sent it; the sender is not data of the program, it
  only names "the part of the stream contributed by reader \<open>j\<close>".

  Channels are created by \<^verbatim>\<open>make\<close> and shared by reference, so they live in a store.
  A reference is \<open>None\<close> for Go's \<^verbatim>\<open>nil\<close> channel.
\<close>

datatype error = ErrConcurrentGoCalls | ErrorsNew string

datatype 'a msg = Item 'a | Err error

datatype sender = Caller | Supervisor | Reader nat

record 'a chan =
  sent :: "(sender \<times> 'a msg) list"
  closed :: bool

record 'a heap =
  cells :: "nat \<Rightarrow> 'a chan"
  nxt :: nat

type_synonym ref = "nat option"

text \<open>
  What an operation of the program does: it completes with a value, it panics (Go's
  run-time panic, with its message), or it blocks for ever.
\<close>

datatype 'r res = Ok 'r | Panic string | Block

definition empty_chan :: "'a chan" where
  "empty_chan = \<lparr>sent = [], closed = False\<rparr>"

definition empty_heap :: "'a heap" where
  "empty_heap = \<lparr>cells = (\<lambda>_. empty_chan), nxt = 0\<rparr>"

text \<open>\<^verbatim>\<open>make(chan T)\<close>: a fresh, open, empty channel.\<close>

definition make_chan :: "'a heap \<Rightarrow> 'a heap \<times> ref" where
  "make_chan h =
     (h\<lparr>cells := (cells h)(nxt h := empty_chan), nxt := Suc (nxt h)\<rparr>, Some (nxt h))"

text \<open>
  \<^verbatim>\<open>ch <- v\<close>: a send on a nil channel blocks for ever, a send on a closed channel panics.
  A send on an open channel completes when a receiver takes the value; the model records
  the completed send.
\<close>

definition chan_send :: "'a heap \<Rightarrow> ref \<Rightarrow> sender \<Rightarrow> 'a msg \<Rightarrow> 'a heap res" where
  "chan_send h r who m =
     (case r of
        None \<Rightarrow> Block
      | Some a \<Rightarrow>
          if closed (cells h a) then Panic ''send on closed channel''
          else Ok (h\<lparr>cells := (cells h)(a := (cells h a)\<lparr>sent := sent (cells h a) @ [(who, m)]\<rparr>)\<rparr>))"

text \<open>\<^verbatim>\<open>close(ch)\<close>: closing a nil channel or a closed channel panics.\<close>

definition chan_close :: "'a heap \<Rightarrow> ref \<Rightarrow> 'a heap res" where
  "chan_close h r =
     (case r of
        None \<Rightarrow> Panic ''close of nil channel''
      | Some a \<Rightarrow>
          if closed (cells h a) then Panic ''close of closed channel''
          else Ok (h\<lparr>cells := (cells h)(a := (cells h a)\<lparr>closed := True\<rparr>)\<rparr>))"

text \<open>
  A receive on a channel on which nothing is ever sent (the \<^verbatim>\<open>done\<close> channel) proceeds
  exactly when the channel is closed; on a nil channel it never proceeds.
\<close>

definition observable :: "'a heap \<Rightarrow> ref \<Rightarrow> bool" where
  "observable h r = (case r of None \<Rightarrow> False | Some a \<Rightarrow> closed (cells h a))"

text \<open>The items, the errors and the entries of one sender in a channel's history.\<close>

fun chan_items :: "(sender \<times> 'a msg) list \<Rightarrow> 'a list" where
  "chan_items [] = []"
| "chan_items ((who, Item x) # ms) = x # chan_items ms"
| "chan_items ((who, Err e) # ms) = chan_items ms"

fun chan_errs :: "(sender \<times> 'a msg) list \<Rightarrow> error list" where
  "chan_errs [] = []"
| "chan_errs ((who, Item x) # ms) = chan_errs ms"
| "chan_errs ((who, Err e) # ms) = e # chan_errs ms"

definition sent_by :: "sender \<Rightarrow> (sender \<times> 'a msg) list \<Rightarrow> (sender \<times> 'a msg) list" where
  "sent_by who ms = filter (\<lambda>m. fst m = who) ms"

section \<open>The batch instance: Go and Done\<close>

text \<open>
  \<^verbatim>\<open>batchImpl\<close>, field by field. The two interface values \<^verbatim>\<open>src\<close> and \<^verbatim>\<open>proc\<close> are opaque
  handles (\<open>None\<close> is the nil interface). The mutex \<^verbatim>\<open>mu\<close> is not a field of the model: each
  section of code that runs with \<^verbatim>\<open>mu\<close> held is one atomic operation below. The field
  \<^verbatim>\<open>done\<close> is written \<open>done_ch\<close>.
\<close>

record batchImpl =
  minTime :: "64 word"
  minItems :: "64 word"
  maxTime :: "64 word"
  maxItems :: "64 word"
  readConcurrency :: "64 word"
  running :: bool
  src :: "nat option"
  proc :: "nat option"
  items :: ref
  errs :: ref
  done_ch :: ref

text \<open>The zero value of the struct, with the reader concurrency set.\<close>

definition newBatch :: "64 word \<Rightarrow> batchImpl" where
  "newBatch k =
     \<lparr>minTime = 0, minItems = 0, maxTime = 0, maxItems = 0, readConcurrency = k,
      running = False, src = None, proc = None, items = None, errs = None, done_ch = None\<rparr>"

text \<open>
  \<^verbatim>\<open>Go\<close> (lines 32-52), the whole body under \<^verbatim>\<open>mu\<close>. The result is the instance, the store,
  the channel returned to the caller, and whether the two goroutines \<^verbatim>\<open>doReaders\<close> and
  \<^verbatim>\<open>doProcessors\<close> were started. The context argument is only handed on to them.
\<close>

definition Go :: "batchImpl \<Rightarrow> 'a heap \<Rightarrow> nat option \<Rightarrow> nat option
    \<Rightarrow> (batchImpl \<times> 'a heap \<times> ref \<times> bool) res" where
  "Go b h s p =
     (if running b then
        (case chan_send h (errs b) Caller (Err ErrConcurrentGoCalls) of
           Ok h' \<Rightarrow> Ok (b, h', errs b, False)
         | Panic m \<Rightarrow> Panic m
         | Block \<Rightarrow> Block)
      else
        (let (h1, i) = make_chan h;
             (h2, e) = make_chan h1;
             (h3, d) = make_chan h2;
             b' = b\<lparr>running := True, items := i, errs := e, done_ch := d, src := s, proc := p\<rparr>
         in Ok (b', h3, errs b', True)))"

text \<open>\<^verbatim>\<open>Done\<close> (lines 54-58): the current value of the field, under \<^verbatim>\<open>mu\<close>.\<close>

definition Done :: "batchImpl \<Rightarrow> ref" where
  "Done b = done_ch b"

section \<open>The reader loop\<close>

text \<open>
  \<^verbatim>\<open>read\<close> (lines 100-131) starts the source's \<^verbatim>\<open>Read\<close> on two channels of its own and
  then loops over a \<^verbatim>\<open>select\<close> with two cases. What one \<^verbatim>\<open>select\<close> delivers is an input of
  the model: which case fired, and the pair \<^verbatim>\<open>(value, ok)\<close> it received, \<open>Closed\<close> being
  \<^verbatim>\<open>ok = false\<close>. The loop's state is its two flags.
\<close>

datatype 'a recv = Recv 'a | Closed

datatype 'a outcome = ItemsCase "'a recv" | ErrsCase "error recv"

record reader =
  itemsClosed :: bool
  errsClosed :: bool

definition new_reader :: reader where
  "new_reader = \<lparr>itemsClosed = False, errsClosed = False\<rparr>"

definition returned :: "reader \<Rightarrow> bool" where
  "returned r = (itemsClosed r \<and> errsClosed r)"

text \<open>
  One iteration of the loop, by reader \<open>j\<close>. \<^verbatim>\<open>newSourceError\<close> is not in the sources: it
  is a parameter.
\<close>

fun read_iter :: "(error \<Rightarrow> error) \<Rightarrow> batchImpl \<Rightarrow> nat \<Rightarrow> 'a heap \<Rightarrow> reader \<Rightarrow> 'a outcome
    \<Rightarrow> ('a heap \<times> reader) res" where
  "read_iter newSourceError b j h r (ItemsCase (Recv item)) =
     (case chan_send h (items b) (Reader j) (Item item) of
        Ok h' \<Rightarrow> Ok (h', r) | Panic m \<Rightarrow> Panic m | Block \<Rightarrow> Block)"
| "read_iter newSourceError b j h r (ItemsCase Closed) = Ok (h, r\<lparr>itemsClosed := True\<rparr>)"
| "read_iter newSourceError b j h r (ErrsCase (Recv err)) =
     (case chan_send h (errs b) (Reader j) (Err (newSourceError err)) of
        Ok h' \<Rightarrow> Ok (h', r) | Panic m \<Rightarrow> Panic m | Block \<Rightarrow> Block)"
| "read_iter newSourceError b j h r (ErrsCase Closed) = Ok (h, r\<lparr>errsClosed := True\<rparr>)"

text \<open>
  The loop of one reader on its own. Its environment is a list of events: the outcomes
  of its \<^verbatim>\<open>select\<close>, and the moments at which the cancellation token fires (\<open>CtxDone\<close>).
  The \<^verbatim>\<open>select\<close> has no case for the token, so the loop does not see that event. When the
  events run out before the loop has returned, the loop is waiting in \<^verbatim>\<open>select\<close>.
\<close>

datatype 'a event = Select "'a outcome" | CtxDone

datatype 'a read_result = Returned "'a heap" | InSelect "'a heap" reader | Panicked string | Stuck

fun read_loop :: "(error \<Rightarrow> error) \<Rightarrow> batchImpl \<Rightarrow> nat \<Rightarrow> 'a heap \<Rightarrow> reader \<Rightarrow> 'a event list
    \<Rightarrow> 'a read_result" where
  "read_loop newSourceError b j h r [] = InSelect h r"
| "read_loop newSourceError b j h r (CtxDone # evs) = read_loop newSourceError b j h r evs"
| "read_loop newSourceError b j h r (Select sel # evs) =
     (case read_iter newSourceError b j h r sel of
        Ok (h', r') \<Rightarrow>
          if itemsClosed r' \<and> errsClosed r' then Returned h'
          else read_loop newSourceError b j h' r' evs
      | Panic m \<Rightarrow> Panicked m
      | Block \<Rightarrow> Stuck)"

definition read :: "(error \<Rightarrow> error) \<Rightarrow> batchImpl \<Rightarrow> nat \<Rightarrow> 'a heap \<Rightarrow> 'a event list
    \<Rightarrow> 'a read_result" where
  "read newSourceError b j h evs = read_loop newSourceError b j h new_reader evs"

text \<open>
  What the source put on its two streams, as the loop's events show it, and the
  discipline of a Go channel: once a receive has reported a stream closed, no later
  receive on it delivers a value.
\<close>

fun src_items :: "'a event list \<Rightarrow> 'a list" where
  "src_items [] = []"
| "src_items (Select (ItemsCase (Recv x)) # evs) = x # src_items evs"
| "src_items (ev # evs) = src_items evs"

fun src_errs :: "'a event list \<Rightarrow> error list" where
  "src_errs [] = []"
| "src_errs (Select (ErrsCase (Recv e)) # evs) = e # src_errs evs"
| "src_errs (ev # evs) = src_errs evs"

fun chan_discipline :: "bool \<Rightarrow> bool \<Rightarrow> 'a event list \<Rightarrow> bool" where
  "chan_discipline ic ec [] = True"
| "chan_discipline ic ec (CtxDone # evs) = chan_discipline ic ec evs"
| "chan_discipline ic ec (Select (ItemsCase (Recv x)) # evs) = (\<not> ic \<and> chan_discipline ic ec evs)"
| "chan_discipline ic ec (Select (ItemsCase Closed) # evs) = chan_discipline True ec evs"
| "chan_discipline ic ec (Select (ErrsCase (Recv e)) # evs) = (\<not> ec \<and> chan_discipline ic ec evs)"
| "chan_discipline ic ec (Select (ErrsCase Closed) # evs) = chan_discipline ic True evs"

section \<open>The goroutines of a run\<close>

text \<open>
  \<^verbatim>\<open>doReaders\<close> (lines 60-84) is modelled by its three stages: the test of the reader
  concurrency with the spawning of the readers (or the sending of the configuration
  error), the iterations of the readers it waits for, and the section under \<^verbatim>\<open>mu\<close> that
  closes the two shared channels once \<^verbatim>\<open>wg.Wait\<close> has returned. A reader's prologue (making
  its two channels and starting the source's \<^verbatim>\<open>Read\<close>) is counted when the reader is
  spawned. The source reads \<^verbatim>\<open>readConcurrency\<close> where the field \<^verbatim>\<open>b.readConcurrency\<close> is
  meant, and \<^verbatim>\<open>read(ctx)\<close> where \<^verbatim>\<open>b.read(ctx)\<close> is meant.
\<close>

datatype rphase = RStart | RWait | RDone

record rsup =
  cancelled :: bool
  phase :: rphase
  readers :: "reader list"

definition new_rsup :: rsup where
  "new_rsup = \<lparr>cancelled = False, phase = RStart, readers = []\<rparr>"

definition doReaders_begin :: "batchImpl \<Rightarrow> 'a heap \<Rightarrow> rsup \<Rightarrow> ('a heap \<times> rsup \<times> nat) res" where
  "doReaders_begin b h g =
     (if phase g \<noteq> RStart then Block
      else if 0 < readConcurrency b then
        Ok (h, g\<lparr>phase := RWait, readers := replicate (unat (readConcurrency b)) new_reader\<rparr>,
            unat (readConcurrency b))
      else
        (case chan_send h (errs b) Supervisor (Err (ErrorsNew ''Read concurrency is 0'')) of
           Ok h' \<Rightarrow> Ok (h', g\<lparr>phase := RWait\<rparr>, 0)
         | Panic m \<Rightarrow> Panic m
         | Block \<Rightarrow> Block))"

definition doReaders_select :: "(error \<Rightarrow> error) \<Rightarrow> batchImpl \<Rightarrow> 'a heap \<Rightarrow> rsup \<Rightarrow> nat
    \<Rightarrow> 'a outcome \<Rightarrow> ('a heap \<times> rsup) res" where
  "doReaders_select newSourceError b h g j sel =
     (if phase g = RWait \<and> j < length (readers g) \<and> \<not> returned (readers g ! j) then
        (case read_iter newSourceError b j h (readers g ! j) sel of
           Ok (h', r') \<Rightarrow> Ok (h', g\<lparr>readers := (readers g)[j := r']\<rparr>)
         | Panic m \<Rightarrow> Panic m
         | Block \<Rightarrow> Block)
      else Block)"

definition doReaders_end :: "batchImpl \<Rightarrow> 'a heap \<Rightarrow> rsup \<Rightarrow> ('a heap \<times> rsup) res" where
  "doReaders_end b h g =
     (if phase g = RWait \<and> list_all returned (readers g) then
        (case chan_close h (items b) of
           Ok h1 \<Rightarrow>
             (case chan_close h1 (errs b) of
                Ok h2 \<Rightarrow> Ok (h2, g\<lparr>phase := RDone, cancelled := True\<rparr>)
              | Panic m \<Rightarrow> Panic m
              | Block \<Rightarrow> Block)
         | Panic m \<Rightarrow> Panic m
         | Block \<Rightarrow> Block)
      else Block)"

section \<open>One run of the fan-in\<close>

text \<open>
  A run begins when \<^verbatim>\<open>Go\<close> is accepted, on an instance in any state that is not running and
  with any store of channels. The state of the run is the instance, the store, the
  \<^verbatim>\<open>doReaders\<close> goroutine that \<^verbatim>\<open>Go\<close> started, and the number of calls of the source's
  \<^verbatim>\<open>Read\<close>. Its steps are the atomic actions the code takes while the instance is running:
  a further call of \<^verbatim>\<open>Go\<close> (which finds \<^verbatim>\<open>running\<close> set: were it accepted, it would begin
  another run), a call of \<^verbatim>\<open>Done\<close>, the firing of the cancellation token, the three stages
  of \<^verbatim>\<open>doReaders\<close>, and one iteration of reader \<open>j\<close>. \<open>Block\<close> says that the action cannot
  happen in this state. Every interleaving of the goroutines of the run is a list of
  steps. \<^verbatim>\<open>doProcessors\<close> takes no part in the fan-in; its final section ends the run.
\<close>

record 'a run =
  rb :: batchImpl
  rh :: "'a heap"
  rg :: rsup
  rcalls :: nat

datatype 'a rlabel =
    RGo "nat option" "nat option"
  | RDoneCall
  | RCancel
  | RReaders
  | RSelect nat "'a outcome"
  | RClose

definition start_run :: "batchImpl \<Rightarrow> 'a heap \<Rightarrow> nat option \<Rightarrow> nat option \<Rightarrow> 'a run res" where
  "start_run b h sr pr =
     (case Go b h sr pr of
        Ok (b', h', ret, spawned) \<Rightarrow>
          if spawned then Ok \<lparr>rb = b', rh = h', rg = new_rsup, rcalls = 0\<rparr> else Block
      | Panic m \<Rightarrow> Panic m
      | Block \<Rightarrow> Block)"

fun rstep :: "(error \<Rightarrow> error) \<Rightarrow> 'a run \<Rightarrow> 'a rlabel \<Rightarrow> 'a run res" where
  "rstep newSourceError st (RGo sr pr) =
     (case Go (rb st) (rh st) sr pr of
        Ok (b', h', ret, spawned) \<Rightarrow> if spawned then Block else Ok (st\<lparr>rb := b', rh := h'\<rparr>)
      | Panic m \<Rightarrow> Panic m
      | Block \<Rightarrow> Block)"
| "rstep newSourceError st RDoneCall = Ok st"
| "rstep newSourceError st RCancel = Ok (st\<lparr>rg := (rg st)\<lparr>cancelled := True\<rparr>\<rparr>)"
| "rstep newSourceError st RReaders =
     (case doReaders_begin (rb st) (rh st) (rg st) of
        Ok (h', g', n) \<Rightarrow> Ok (st\<lparr>rh := h', rg := g', rcalls := rcalls st + n\<rparr>)
      | Panic m \<Rightarrow> Panic m
      | Block \<Rightarrow> Block)"
| "rstep newSourceError st (RSelect j sel) =
     (case doReaders_select newSourceError (rb st) (rh st) (rg st) j sel of
        Ok (h', g') \<Rightarrow> Ok (st\<lparr>rh := h', rg := g'\<rparr>)
      | Panic m \<Rightarrow> Panic m
      | Block \<Rightarrow> Block)"
| "rstep newSourceError st RClose =
     (case doReaders_end (rb st) (rh st) (rg st) of
        Ok (h', g') \<Rightarrow> Ok (st\<lparr>rh := h', rg := g'\<rparr>)
      | Panic m \<Rightarrow> Panic m
      | Block \<Rightarrow> Block)"

fun rexec :: "(error \<Rightarrow> error) \<Rightarrow> 'a run \<Rightarrow> 'a rlabel list \<Rightarrow> 'a run res" where
  "rexec newSourceError st [] = Ok st"
| "rexec newSourceError st (l # ls) =
     (case rstep newSourceError st l of
        Ok st' \<Rightarrow> rexec newSourceError st' ls
      | Panic m \<Rightarrow> Panic m
      | Block \<Rightarrow> Block)"

text \<open>
  The items and the errors that the \<^verbatim>\<open>select\<close> of reader \<open>j\<close> has received from its source
  in the course of the steps, in the order received: the reader's source output.
\<close>

fun run_items :: "nat \<Rightarrow> 'a rlabel list \<Rightarrow> 'a list" where
  "run_items j [] = []"
| "run_items j (RSelect j' (ItemsCase (Recv x)) # ls) =
     (if j' = j then x # run_items j ls else run_items j ls)"
| "run_items j (l # ls) = run_items j ls"

fun run_errs :: "nat \<Rightarrow> 'a rlabel list \<Rightarrow> error list" where
  "run_errs j [] = []"
| "run_errs j (RSelect j' (ErrsCase (Recv e)) # ls) =
     (if j' = j then e # run_errs j ls else run_errs j ls)"
| "run_errs j (l # ls) = run_errs j ls"

section \<open>The dispatch goroutine\<close>

text \<open>
  \<^verbatim>\<open>doProcessors\<close> (lines 86-98). Its last section, under \<^verbatim>\<open>mu\<close>, is in the source:
  \<^verbatim>\<open>b.running = false; close(b.done)\<close>. Its body is elided there (\<^verbatim>\<open>// ...\<close>).
\<close>

record psup =
  taken :: nat
  eof :: bool
  fin :: bool

definition new_psup :: psup where
  "new_psup = \<lparr>taken = 0, eof = False, fin = False\<rparr>"

text \<open>
  Modelled from the spec: the body of \<^verbatim>\<open>doProcessors\<close>, which \<^verbatim>\<open>batch.go\<close> elides. The spec
  (4.3, 4.4, 5) has the assembly engine consume the merged item stream until the
  upstream end-of-input is signalled, and the run return to Idle once ingestion and
  dispatch have drained. One step of the body receives the next item of the shared item
  channel, or sees that channel closed with nothing left to receive.
\<close>

definition doProcessors_body :: "batchImpl \<Rightarrow> 'a heap \<Rightarrow> psup \<Rightarrow> psup res" where
  "doProcessors_body b h p =
     (if eof p \<or> fin p then Block
      else
        (case items b of
           None \<Rightarrow> Block
         | Some c \<Rightarrow>
             if taken p < length (sent (cells h c)) then Ok (p\<lparr>taken := Suc (taken p)\<rparr>)
             else if closed (cells h c) then Ok (p\<lparr>eof := True\<rparr>)
             else Block))"

definition doProcessors_end :: "batchImpl \<Rightarrow> 'a heap \<Rightarrow> psup \<Rightarrow> (batchImpl \<times> 'a heap \<times> psup) res" where
  "doProcessors_end b h p =
     (if eof p \<and> \<not> fin p then
        (case chan_close h (done_ch (b\<lparr>running := False\<rparr>)) of
           Ok h' \<Rightarrow> Ok (b\<lparr>running := False\<rparr>, h', p\<lparr>fin := True\<rparr>)
         | Panic m \<Rightarrow> Panic m
         | Block \<Rightarrow> Block)
      else Block)"

section \<open>The instance with its goroutines\<close>

text \<open>
  The state of the whole instance over any number of runs: the instance, the store of
  channels, the goroutines started so far (run \<open>g\<close> is the \<open>g\<close>-th accepted call of
  \<^verbatim>\<open>Go\<close>), and the number of calls of the source's \<^verbatim>\<open>Read\<close>. A step is one atomic action of
  a caller or of a goroutine of run \<open>g\<close>; besides the steps of a run there are the steps of
  \<^verbatim>\<open>doProcessors\<close>. Every interleaving of the goroutines is a list of steps.
\<close>

record 'a sys =
  bi :: batchImpl
  hp :: "'a heap"
  nruns :: nat
  rsups :: "nat \<Rightarrow> rsup"
  psups :: "nat \<Rightarrow> psup"
  readCalls :: nat

datatype 'a label =
    LGo "nat option" "nat option"
  | LDone
  | LCancel nat
  | LReaders nat
  | LSelect nat nat "'a outcome"
  | LClose nat
  | LRecv nat
  | LFinish nat

definition sys0 :: "64 word \<Rightarrow> 'a sys" where
  "sys0 k = \<lparr>bi = newBatch k, hp = empty_heap, nruns = 0, rsups = (\<lambda>_. new_rsup),
             psups = (\<lambda>_. new_psup), readCalls = 0\<rparr>"

fun step :: "(error \<Rightarrow> error) \<Rightarrow> 'a sys \<Rightarrow> 'a label \<Rightarrow> 'a sys res" where
  "step newSourceError s (LGo sr pr) =
     (case Go (bi s) (hp s) sr pr of
        Ok (b', h', ret, spawned) \<Rightarrow>
          if spawned then
            Ok (s\<lparr>bi := b', hp := h', nruns := Suc (nruns s),
                  rsups := (rsups s)(nruns s := new_rsup),
                  psups := (psups s)(nruns s := new_psup)\<rparr>)
          else Ok (s\<lparr>bi := b', hp := h'\<rparr>)
      | Panic m \<Rightarrow> Panic m
      | Block \<Rightarrow> Block)"
| "step newSourceError s LDone = Ok s"
| "step newSourceError s (LCancel g) =
     (if g < nruns s then Ok (s\<lparr>rsups := (rsups s)(g := (rsups s g)\<lparr>cancelled := True\<rparr>)\<rparr>)
      else Block)"
| "step newSourceError s (LReaders g) =
     (if g < nruns s then
        (case doReaders_begin (bi s) (hp s) (rsups s g) of
           Ok (h', r', n) \<Rightarrow>
             Ok (s\<lparr>hp := h', rsups := (rsups s)(g := r'), readCalls := readCalls s + n\<rparr>)
         | Panic m \<Rightarrow> Panic m
         | Block \<Rightarrow> Block)
      else Block)"
| "step newSourceError s (LSelect g j sel) =
     (if g < nruns s then
        (case doReaders_select newSourceError (bi s) (hp s) (rsups s g) j sel of
           Ok (h', r') \<Rightarrow> Ok (s\<lparr>hp := h', rsups := (rsups s)(g := r')\<rparr>)
         | Panic m \<Rightarrow> Panic m
         | Block \<Rightarrow> Block)
      else Block)"
| "step newSourceError s (LClose g) =
     (if g < nruns s then
        (case doReaders_end (bi s) (hp s) (rsups s g) of
           Ok (h', r') \<Rightarrow> Ok (s\<lparr>hp := h', rsups := (rsups s)(g := r')\<rparr>)
         | Panic m \<Rightarrow> Panic m
         | Block \<Rightarrow> Block)
      else Block)"
| "step newSourceError s (LRecv g) =
     (if g < nruns s then
        (case doProcessors_body (bi s) (hp s) (psups s g) of
           Ok p' \<Rightarrow> Ok (s\<lparr>psups := (psups s)(g := p')\<rparr>)
         | Panic m \<Rightarrow> Panic m
         | Block \<Rightarrow> Block)
      else Block)"
| "step newSourceError s (LFinish g) =
     (if g < nruns s then
        (case doProcessors_end (bi s) (hp s) (psups s g) of
           Ok (b', h', p') \<Rightarrow> Ok (s\<lparr>bi := b', hp := h', psups := (psups s)(g := p')\<rparr>)
         | Panic m \<Rightarrow> Panic m
         | Block \<Rightarrow> Block)
      else Block)"

fun exec :: "(error \<Rightarrow> error) \<Rightarrow> 'a sys \<Rightarrow> 'a label list \<Rightarrow> 'a sys res" where
  "exec newSourceError s [] = Ok s"
| "exec newSourceError s (l # ls) =
     (case step newSourceError s l of
        Ok s' \<Rightarrow> exec newSourceError s' ls
      | Panic m \<Rightarrow> Panic m
      | Block \<Rightarrow> Block)"

text \<open>The goroutines of the latest run.\<close>

definition cur_rsup :: "'a sys \<Rightarrow> rsup" where
  "cur_rsup s = rsups s (nruns s - 1)"

definition cur_psup :: "'a sys \<Rightarrow> psup" where
  "cur_psup s = psups s (nruns s - 1)"

section \<open>The static configuration\<close>

text \<open>
  \<^verbatim>\<open>ConfigValues\<close> and \<^verbatim>\<open>ConstantConfig\<close> (config file, lines 45-93). \<^verbatim>\<open>NewConstantConfig\<close> takes
  a pointer: \<open>None\<close> is nil, \<open>Some p\<close> an address of the caller's memory, which the caller
  may overwrite later. The constructor copies the struct it points to; the field
  \<^verbatim>\<open>values\<close> is written \<open>cfg_values\<close>.
\<close>

record ConfigValues =
  MinTime :: "64 word"
  MinItems :: "64 word"
  MaxTime :: "64 word"
  MaxItems :: "64 word"

record ConstantConfig =
  cfg_values :: ConfigValues

definition zero_ConfigValues :: ConfigValues where
  "zero_ConfigValues = \<lparr>MinTime = 0, MinItems = 0, MaxTime = 0, MaxItems = 0\<rparr>"

definition NewConstantConfig :: "(nat \<Rightarrow> ConfigValues) \<Rightarrow> nat option \<Rightarrow> ConstantConfig" where
  "NewConstantConfig mem v =
     (case v of
        None \<Rightarrow> \<lparr>cfg_values = zero_ConfigValues\<rparr>
      | Some p \<Rightarrow> \<lparr>cfg_values = mem p\<rparr>)"

text \<open>\<^verbatim>\<open>Get\<close>, called with the caller's memory as it is at the time of the call.\<close>

definition Get :: "(nat \<Rightarrow> ConfigValues) \<Rightarrow> ConstantConfig \<Rightarrow> ConfigValues" where
  "Get mem c = cfg_values c"

section \<open>The batch assembly engine\<close>

text \<open>
  Modelled from the spec: the clamp of a configuration (spec 3, 4.1). The engine that applies
  it is the body of \<^verbatim>\<open>doProcessors\<close>, which \<^verbatim>\<open>batch.go\<close> elides. "If a provider returns a violating
  pair, the engine clamps the min to equal the max before use." Durations are Go's signed
  64-bit nanoseconds, counts are unsigned.
\<close>

definition clamp :: "ConfigValues \<Rightarrow> ConfigValues" where
  "clamp c =
     c\<lparr>MinTime := (if sint (MaxTime c) < sint (MinTime c) then MaxTime c else MinTime c),
       MinItems := (if MaxItems c < MinItems c then MaxItems c else MinItems c)\<rparr>"

text \<open>
  Modelled from the spec: what the assembly engine (elided in \<^verbatim>\<open>batch.go\<close>) reacts to (spec
  4.3): "evaluated on every item arrival and on every deadline expiry". Each event carries
  its time.
\<close>

datatype 'a tick = Arrive nat 'a | Expire nat

text \<open>
  Modelled from the spec: the state of the batch being assembled (spec 4.3), \<open>Empty\<close> or
  \<open>Accumulating\<close> with its open time, the configuration snapshot taken when it was opened,
  and the items so far. The engine is elided in \<^verbatim>\<open>batch.go\<close>.
\<close>

datatype 'a batch_state = Empty | Accumulating nat ConfigValues "'a list"

text \<open>
  Modelled from the spec: rules 1 to 3 of the sealing policy (spec 4.3) of the engine that
  \<^verbatim>\<open>batch.go\<close> elides, for a batch of \<open>n\<close> items open for \<open>el\<close> nanoseconds: the count has
  reached the effective \<^verbatim>\<open>MaxItems\<close>, or the time the effective \<^verbatim>\<open>MaxTime\<close>, or both minimums
  are met.
\<close>

definition seal_now :: "ConfigValues \<Rightarrow> nat \<Rightarrow> nat \<Rightarrow> bool" where
  "seal_now c n el =
     (unat (MaxItems c) \<le> n \<or> sint (MaxTime c) \<le> int el \<or>
      (unat (MinItems c) \<le> n \<and> sint (MinTime c) \<le> int el))"

text \<open>
  Modelled from the spec: the assembly engine (spec 4.3), elided in \<^verbatim>\<open>batch.go\<close>. It yields
  the sealed batches in the order of sealing. The first item after \<open>Empty\<close> opens a batch
  with the clamped snapshot of the provider's \<open>n\<close>-th answer; an arrival or an expiry
  seals by rules 1 to 3; at the end of input a non-empty batch is sealed (rule 4); a
  seal returns the engine to \<open>Empty\<close>.
\<close>

fun assemble :: "(nat \<Rightarrow> ConfigValues) \<Rightarrow> nat \<Rightarrow> 'a batch_state \<Rightarrow> 'a tick list \<Rightarrow> 'a list list" where
  "assemble get n Empty [] = []"
| "assemble get n (Accumulating t0 c buf) [] = (if buf = [] then [] else [buf])"
| "assemble get n Empty (Expire t # evs) = assemble get n Empty evs"
| "assemble get n Empty (Arrive t x # evs) =
     (if seal_now (clamp (get n)) 1 0 then [x] # assemble get (Suc n) Empty evs
      else assemble get (Suc n) (Accumulating t (clamp (get n)) [x]) evs)"
| "assemble get n (Accumulating t0 c buf) (Arrive t x # evs) =
     (if seal_now c (Suc (length buf)) (t - t0) then (buf @ [x]) # assemble get n Empty evs
      else assemble get n (Accumulating t0 c (buf @ [x])) evs)"
| "assemble get n (Accumulating t0 c buf) (Expire t # evs) =
     (if seal_now c (length buf) (t - t0) then buf # assemble get n Empty evs
      else assemble get n (Accumulating t0 c buf) evs)"

text \<open>The items that arrive at the engine, and the items of the batch in assembly.\<close>

fun arrivals :: "'a tick list \<Rightarrow> 'a list" where
  "arrivals [] = []"
| "arrivals (Arrive t x # evs) = x # arrivals evs"
| "arrivals (Expire t # evs) = arrivals evs"

fun buffer :: "'a batch_state \<Rightarrow> 'a list" where
  "buffer Empty = []"
| "buffer (Accumulating t0 c buf) = buf"

section \<open>Invariants\<close>

text \<open>
  What holds in every state of a run whose three channels are \<open>i\<close> (items), \<open>e\<close> (errors)
  and a third for \<^verbatim>\<open>done\<close>: the instance keeps these channels and stays running; the two
  shared streams are closed exactly when \<^verbatim>\<open>doReaders\<close> has finished; and the readers number
  \<^verbatim>\<open>readConcurrency\<close> from the moment they are spawned, all of them returned when
  \<^verbatim>\<open>doReaders\<close> has finished.
\<close>

definition run_ok :: "64 word \<Rightarrow> nat \<Rightarrow> nat \<Rightarrow> 'a run \<Rightarrow> bool" where
  "run_ok k i e st =
     (items (rb st) = Some i \<and> errs (rb st) = Some e \<and> i \<noteq> e \<and>
      running (rb st) \<and> readConcurrency (rb st) = k \<and>
      closed (cells (rh st) i) = (phase (rg st) = RDone) \<and>
      closed (cells (rh st) e) = (phase (rg st) = RDone) \<and>
      (phase (rg st) = RStart \<longrightarrow> readers (rg st) = []) \<and>
      (phase (rg st) \<noteq> RStart \<longrightarrow> length (readers (rg st)) = unat k) \<and>
      (phase (rg st) = RDone \<longrightarrow> list_all returned (readers (rg st))))"

text \<open>
  The history of the shared streams against the steps taken: what reader \<open>j\<close> has put
  on each stream is what its \<^verbatim>\<open>select\<close> has received (an error passed through
  \<^verbatim>\<open>newSourceError\<close>), and only readers put anything on the item stream.
\<close>

fun from_reader :: "nat \<Rightarrow> sender \<times> 'a msg \<Rightarrow> bool" where
  "from_reader n (Reader j, Item x) = (j < n)"
| "from_reader n m = False"

definition run_hist :: "64 word \<Rightarrow> (error \<Rightarrow> error) \<Rightarrow> nat \<Rightarrow> nat \<Rightarrow> 'a rlabel list \<Rightarrow> 'a run \<Rightarrow> bool" where
  "run_hist k nse i e ls st =
     ((\<forall>j. chan_items (sent_by (Reader j) (sent (cells (rh st) i))) = run_items j ls) \<and>
      (\<forall>j. chan_errs (sent_by (Reader j) (sent (cells (rh st) e))) = map nse (run_errs j ls)) \<and>
      list_all (from_reader (unat k)) (sent (cells (rh st) i)))"

text \<open>With reader concurrency 0: no call of \<^verbatim>\<open>Read\<close>, and one configuration error at most.\<close>

definition run_zero :: "nat \<Rightarrow> 'a run \<Rightarrow> bool" where
  "run_zero e st =
     (rcalls st = 0 \<and>
      filter (\<lambda>x. x \<noteq> ErrConcurrentGoCalls) (chan_errs (sent (cells (rh st) e))) =
        (if phase (rg st) = RStart then [] else [ErrorsNew ''Read concurrency is 0'']))"

text \<open>
  What holds of the latest run in every state of the whole instance reached from a fresh
  one: its three channels are distinct; the two shared streams are closed exactly when
  \<^verbatim>\<open>doReaders\<close> has finished, the \<^verbatim>\<open>done\<close> channel exactly when \<^verbatim>\<open>doProcessors\<close> has;
  \<^verbatim>\<open>running\<close> is set exactly until then; and all earlier runs have finished.
\<close>

definition run_facts :: "64 word \<Rightarrow> bool \<Rightarrow> nat \<Rightarrow> nat \<Rightarrow> nat \<Rightarrow> 'a heap \<Rightarrow> rsup \<Rightarrow> psup \<Rightarrow> bool" where
  "run_facts k rn i e d h r p =
     (i \<noteq> e \<and> i \<noteq> d \<and> e \<noteq> d \<and>
      closed (cells h i) = (phase r = RDone) \<and>
      closed (cells h e) = (phase r = RDone) \<and>
      closed (cells h d) = fin p \<and>
      rn = (\<not> fin p) \<and>
      (fin p \<longrightarrow> eof p) \<and>
      (eof p \<longrightarrow> phase r = RDone \<and> taken p = length (sent (cells h i))) \<and>
      taken p \<le> length (sent (cells h i)) \<and>
      (phase r = RStart \<longrightarrow> readers r = []) \<and>
      (phase r \<noteq> RStart \<longrightarrow> length (readers r) = unat k) \<and>
      (phase r = RDone \<longrightarrow> list_all returned (readers r)))"

definition run_inv :: "64 word \<Rightarrow> batchImpl \<Rightarrow> 'a heap \<Rightarrow> rsup \<Rightarrow> psup \<Rightarrow> bool" where
  "run_inv k b h r p =
     (\<exists>i e d. items b = Some i \<and> errs b = Some e \<and> done_ch b = Some d \<and>
        run_facts k (running b) i e d h r p)"

definition sys_inv :: "64 word \<Rightarrow> 'a sys \<Rightarrow> bool" where
  "sys_inv k s =
     (readConcurrency (bi s) = k \<and>
      (\<forall>g. Suc g < nruns s \<longrightarrow> phase (rsups s g) = RDone \<and> fin (psups s g)) \<and>
      (if nruns s = 0
       then \<not> running (bi s) \<and> items (bi s) = None \<and> errs (bi s) = None \<and> done_ch (bi s) = None
       else run_inv k (bi s) (hp s) (cur_rsup s) (cur_psup s)))"

text \<open>A call of \<^verbatim>\<open>Go\<close> among the steps.\<close>

fun is_Go :: "'a label \<Rightarrow> bool" where
  "is_Go (LGo sr pr) = True"
| "is_Go l = False"

section \<open>Lemmas on the reader loop\<close>

lemma chan_items_snoc:
  "chan_items (ms @ [(who, m)]) = chan_items ms @ (case m of Item x \<Rightarrow> [x] | Err e \<Rightarrow> [])"
  by (induction ms rule: chan_items.induct) (auto split: msg.splits)

lemma chan_errs_snoc:
  "chan_errs (ms @ [(who, m)]) = chan_errs ms @ (case m of Item x \<Rightarrow> [] | Err e \<Rightarrow> [e])"
  by (induction ms rule: chan_errs.induct) (auto split: msg.splits)

lemma discipline_closed_gen:
  "chan_discipline ic ec evs \<Longrightarrow> (ic \<longrightarrow> src_items evs = []) \<and> (ec \<longrightarrow> src_errs evs = [])"
  by (induction ic ec evs rule: chan_discipline.induct) auto

lemma discipline_closed_no_values:
  "chan_discipline True True evs \<Longrightarrow> src_items evs = [] \<and> src_errs evs = []"
  using discipline_closed_gen by blast

lemma read_loop_returns_iff:
  "items b = Some ci \<Longrightarrow> errs b = Some ce \<Longrightarrow> \<not> closed (cells h ci) \<Longrightarrow> \<not> closed (cells h ce) \<Longrightarrow> \<not> returned r \<Longrightarrow>
    (\<exists>h'. read_loop nse b j h r evs = Returned h') \<longleftrightarrow>
    ((itemsClosed r \<or> Select (ItemsCase Closed) \<in> set evs) \<and>
     (errsClosed r \<or> Select (ErrsCase Closed) \<in> set evs))"
proof (induction nse b j h r evs rule: read_loop.induct)
  case (1 nse b j h r)
  then show ?case by (simp add: returned_def)
next
  case (2 nse b j h r evs)
  then show ?case by simp
next
  case (3 nse b j h r sel evs)
  show ?case
  proof (cases sel)
    case (ItemsCase x)
    then show ?thesis using 3
      by (cases x) (auto simp: chan_send_def returned_def)
  next
    case (ErrsCase x)
    then show ?thesis using 3
      by (cases x) (auto simp: chan_send_def returned_def)
  qed
qed

lemma read_loop_forwards:
  "items b = Some ci \<Longrightarrow> errs b = Some ce \<Longrightarrow> \<not> closed (cells h ci) \<Longrightarrow> \<not> closed (cells h ce) \<Longrightarrow> \<not> returned r \<Longrightarrow>
    chan_discipline (itemsClosed r) (errsClosed r) evs \<Longrightarrow>
    read_loop nse b j h r evs = Returned h' \<Longrightarrow>
    chan_items (sent (cells h' ci)) = chan_items (sent (cells h ci)) @ src_items evs \<and>
    chan_errs (sent (cells h' ce)) = chan_errs (sent (cells h ce)) @ map nse (src_errs evs)"
proof (induction nse b j h r evs rule: read_loop.induct)
  case (1 nse b j h r)
  then show ?case by simp
next
  case (2 nse b j h r evs)
  then show ?case by simp
next
  case (3 nse b j h r sel evs)
  show ?case
  proof (cases sel)
    case (ItemsCase x)
    then show ?thesis using 3
      by (cases x) (auto simp: chan_send_def returned_def chan_items_snoc chan_errs_snoc
          discipline_closed_no_values split: if_splits)
  next
    case (ErrsCase x)
    then show ?thesis using 3
      by (cases x) (auto simp: chan_send_def returned_def chan_items_snoc chan_errs_snoc
          discipline_closed_no_values split: if_splits)
  qed
qed

lemma read_loop_ignores_CtxDone:
  "read_loop nse b j h r (filter (\<lambda>ev. ev \<noteq> CtxDone) evs) = read_loop nse b j h r evs"
  by (induction nse b j h r evs rule: read_loop.induct) (auto split: res.splits)

section \<open>Lemmas on a run\<close>

lemma chan_items_append: "chan_items (xs @ ys) = chan_items xs @ chan_items ys"
  by (induction xs rule: chan_items.induct) simp_all

lemma chan_errs_append: "chan_errs (xs @ ys) = chan_errs xs @ chan_errs ys"
  by (induction xs rule: chan_errs.induct) simp_all

lemma sent_by_append: "sent_by w (xs @ ys) = sent_by w xs @ sent_by w ys"
  by (simp add: sent_by_def)

lemma sent_by_single: "sent_by w [m] = (if fst m = w then [m] else [])"
  by (simp add: sent_by_def)

lemma sent_by_Nil: "sent_by w [] = []"
  by (simp add: sent_by_def)

lemma run_items_append: "run_items j (ls @ ls') = run_items j ls @ run_items j ls'"
  by (induction j ls rule: run_items.induct) simp_all

lemma run_errs_append: "run_errs j (ls @ ls') = run_errs j ls @ run_errs j ls'"
  by (induction j ls rule: run_errs.induct) simp_all

lemmas hist_simps = chan_items_append chan_errs_append sent_by_append sent_by_single sent_by_Nil
  run_items_append run_errs_append

lemma start_run_state:
  assumes "start_run b h sr pr = Ok st"
  shows "\<not> running b"
    and "st = \<lparr>rb = b\<lparr>running := True, items := Some (nxt h), errs := Some (Suc (nxt h)),
                    done_ch := Some (Suc (Suc (nxt h))), src := sr, proc := pr\<rparr>,
               rh = h\<lparr>cells := (cells h)(nxt h := empty_chan, Suc (nxt h) := empty_chan,
                       Suc (Suc (nxt h)) := empty_chan),
                     nxt := Suc (Suc (Suc (nxt h)))\<rparr>,
               rg = new_rsup, rcalls = 0\<rparr>"
  using assms
  by (auto simp: start_run_def Go_def make_chan_def chan_send_def
      split: if_splits option.splits res.splits)

lemma start_run_ok:
  assumes "start_run b h sr pr = Ok st"
  shows "run_ok (readConcurrency b) (nxt h) (Suc (nxt h)) st"
    and "run_hist (readConcurrency b) nse (nxt h) (Suc (nxt h)) [] st"
    and "run_zero (Suc (nxt h)) st"
  unfolding start_run_state(2)[OF assms]
  by (simp_all add: run_ok_def run_hist_def run_zero_def new_rsup_def empty_chan_def sent_by_Nil)

lemma read_iter_cases:
  assumes "read_iter nse b j h r sel = Ok (h', r')" "items b = Some i" "errs b = Some e"
  shows "(\<exists>x. sel = ItemsCase (Recv x) \<and> \<not> closed (cells h i) \<and> r' = r \<and>
            h' = h\<lparr>cells := (cells h)(i := (cells h i)\<lparr>sent := sent (cells h i) @ [(Reader j, Item x)]\<rparr>)\<rparr>) \<or>
         (sel = ItemsCase Closed \<and> h' = h \<and> r' = r\<lparr>itemsClosed := True\<rparr>) \<or>
         (\<exists>x. sel = ErrsCase (Recv x) \<and> \<not> closed (cells h e) \<and> r' = r \<and>
            h' = h\<lparr>cells := (cells h)(e := (cells h e)\<lparr>sent := sent (cells h e) @ [(Reader j, Err (nse x))]\<rparr>)\<rparr>) \<or>
         (sel = ErrsCase Closed \<and> h' = h \<and> r' = r\<lparr>errsClosed := True\<rparr>)"
proof (cases sel)
  case (ItemsCase x)
  then show ?thesis using assms
    by (cases x) (auto simp: chan_send_def split: if_splits)
next
  case (ErrsCase x)
  then show ?thesis using assms
    by (cases x) (auto simp: chan_send_def split: if_splits)
qed

lemma rstep_effect [consumes 2, case_names Go Done Cancel Readers Zero Select Close]:
  assumes "run_ok k i e st" "rstep nse st l = Ok st'"
  obtains
    (Go) sr pr where "l = RGo sr pr" "\<not> closed (cells (rh st) e)"
      "st' = st\<lparr>rh := (rh st)\<lparr>cells := (cells (rh st))(e := (cells (rh st) e)\<lparr>sent := sent (cells (rh st) e) @ [(Caller, Err ErrConcurrentGoCalls)]\<rparr>)\<rparr>\<rparr>"
  | (Done) "l = RDoneCall" "st' = st"
  | (Cancel) "l = RCancel" "st' = st\<lparr>rg := (rg st)\<lparr>cancelled := True\<rparr>\<rparr>"
  | (Readers) "l = RReaders" "0 < k" "phase (rg st) = RStart"
      "st' = st\<lparr>rg := (rg st)\<lparr>phase := RWait, readers := replicate (unat k) new_reader\<rparr>,
                 rcalls := rcalls st + unat k\<rparr>"
  | (Zero) "l = RReaders" "k = 0" "phase (rg st) = RStart"
      "rb st' = rb st" "rcalls st' = rcalls st" "rg st' = (rg st)\<lparr>phase := RWait\<rparr>"
      "rh st' = (rh st)\<lparr>cells := (cells (rh st))(e := (cells (rh st) e)\<lparr>sent := sent (cells (rh st) e) @ [(Supervisor, Err (ErrorsNew ''Read concurrency is 0''))]\<rparr>)\<rparr>"
  | (Select) j sel h' r' where "l = RSelect j sel" "phase (rg st) = RWait"
      "j < length (readers (rg st))" "length (readers (rg st)) = unat k"
      "(\<exists>x. sel = ItemsCase (Recv x) \<and> \<not> closed (cells (rh st) i) \<and> r' = readers (rg st) ! j \<and>
            h' = (rh st)\<lparr>cells := (cells (rh st))(i := (cells (rh st) i)\<lparr>sent := sent (cells (rh st) i) @ [(Reader j, Item x)]\<rparr>)\<rparr>) \<or>
         (sel = ItemsCase Closed \<and> h' = rh st \<and> r' = (readers (rg st) ! j)\<lparr>itemsClosed := True\<rparr>) \<or>
         (\<exists>x. sel = ErrsCase (Recv x) \<and> \<not> closed (cells (rh st) e) \<and> r' = readers (rg st) ! j \<and>
            h' = (rh st)\<lparr>cells := (cells (rh st))(e := (cells (rh st) e)\<lparr>sent := sent (cells (rh st) e) @ [(Reader j, Err (nse x))]\<rparr>)\<rparr>) \<or>
         (sel = ErrsCase Closed \<and> h' = rh st \<and> r' = (readers (rg st) ! j)\<lparr>errsClosed := True\<rparr>)"
      "st' = st\<lparr>rh := h', rg := (rg st)\<lparr>readers := (readers (rg st))[j := r']\<rparr>\<rparr>"
  | (Close) "l = RClose" "phase (rg st) = RWait" "list_all returned (readers (rg st))"
      "st' = st\<lparr>rh := (rh st)\<lparr>cells := (cells (rh st))(i := (cells (rh st) i)\<lparr>closed := True\<rparr>,
                   e := (cells (rh st) e)\<lparr>closed := True\<rparr>)\<rparr>,
                 rg := (rg st)\<lparr>phase := RDone, cancelled := True\<rparr>\<rparr>"
proof (cases l)
  case (RGo sr pr)
  with assms have "\<not> closed (cells (rh st) e)"
      "st' = st\<lparr>rh := (rh st)\<lparr>cells := (cells (rh st))(e := (cells (rh st) e)\<lparr>sent := sent (cells (rh st) e) @ [(Caller, Err ErrConcurrentGoCalls)]\<rparr>)\<rparr>\<rparr>"
    by (auto simp: run_ok_def Go_def chan_send_def split: if_splits)
  with RGo show thesis by (rule Go)
next
  case RDoneCall
  with assms have "st' = st" by simp
  with RDoneCall show thesis by (rule Done)
next
  case RCancel
  with assms have "st' = st\<lparr>rg := (rg st)\<lparr>cancelled := True\<rparr>\<rparr>" by simp
  with RCancel show thesis by (rule Cancel)
next
  case RReaders
  from assms(2) RReaders have ph: "phase (rg st) = RStart"
    by (auto simp: doReaders_begin_def split: if_splits)
  from assms(1) have k: "readConcurrency (rb st) = k" by (simp add: run_ok_def)
  show thesis
  proof (cases "0 < k")
    case True
    with assms(2) RReaders ph k have "st' = st\<lparr>rg := (rg st)\<lparr>phase := RWait, readers := replicate (unat k) new_reader\<rparr>,
                 rcalls := rcalls st + unat k\<rparr>"
      by (simp add: doReaders_begin_def)
    with RReaders True ph show thesis by (rule Readers)
  next
    case False
    then have k0: "k = 0" by (simp add: word_gt_0)
    from assms(1) ph have nc: "\<not> closed (cells (rh st) e)" "errs (rb st) = Some e"
      by (simp_all add: run_ok_def)
    with assms(2) RReaders ph k k0 have s': "rb st' = rb st" "rcalls st' = rcalls st"
      "rg st' = (rg st)\<lparr>phase := RWait\<rparr>"
      "rh st' = (rh st)\<lparr>cells := (cells (rh st))(e := (cells (rh st) e)\<lparr>sent := sent (cells (rh st) e) @ [(Supervisor, Err (ErrorsNew ''Read concurrency is 0''))]\<rparr>)\<rparr>"
      by (auto simp: doReaders_begin_def chan_send_def)
    from RReaders k0 ph s' show thesis by (rule Zero)
  qed
next
  case (RSelect j sel)
  from assms(2) RSelect have ph: "phase (rg st) = RWait"
    and j: "j < length (readers (rg st))"
    by (auto simp: doReaders_select_def split: if_splits)
  from assms(2) RSelect ph j obtain h' r' where
    it: "read_iter nse (rb st) j (rh st) (readers (rg st) ! j) sel = Ok (h', r')"
    and s': "st' = st\<lparr>rh := h', rg := (rg st)\<lparr>readers := (readers (rg st))[j := r']\<rparr>\<rparr>"
    by (auto simp: doReaders_select_def split: if_splits res.splits)
  from assms(1) ph have len: "length (readers (rg st)) = unat k"
    and ch: "items (rb st) = Some i" "errs (rb st) = Some e"
    by (simp_all add: run_ok_def)
  from RSelect ph j len read_iter_cases[OF it ch] s' show thesis by (rule Select)
next
  case RClose
  from assms(2) RClose have ph: "phase (rg st) = RWait"
    and al: "list_all returned (readers (rg st))"
    by (auto simp: doReaders_end_def split: if_splits)
  from assms(1) ph have nc: "\<not> closed (cells (rh st) i)" "\<not> closed (cells (rh st) e)" "i \<noteq> e"
    "items (rb st) = Some i" "errs (rb st) = Some e"
    by (simp_all add: run_ok_def)
  with assms(2) RClose ph al have "st' = st\<lparr>rh := (rh st)\<lparr>cells := (cells (rh st))(i := (cells (rh st) i)\<lparr>closed := True\<rparr>,
                   e := (cells (rh st) e)\<lparr>closed := True\<rparr>)\<rparr>,
                 rg := (rg st)\<lparr>phase := RDone, cancelled := True\<rparr>\<rparr>"
    by (auto simp: doReaders_end_def chan_close_def)
  with RClose ph al show thesis by (rule Close)
qed

lemma rstep_ok:
  assumes "run_ok k i e st" "rstep nse st l = Ok st'"
  shows "run_ok k i e st'"
  using assms
proof (cases rule: rstep_effect)
  case (Zero)
  with assms(1) show ?thesis by (auto simp: run_ok_def)
next
  case (Select j sel h' r')
  with assms(1) show ?thesis by (auto simp: run_ok_def)
qed (use assms(1) in \<open>auto simp: run_ok_def\<close>)

lemma rstep_hist:
  assumes "run_ok k i e st" "run_hist k nse i e ls st" "rstep nse st l = Ok st'"
  shows "run_hist k nse i e (ls @ [l]) st'"
  using assms(1,3)
proof (cases rule: rstep_effect)
  case (Zero)
  with assms(1,2) show ?thesis by (auto simp: run_ok_def run_hist_def hist_simps)
next
  case (Select j sel h' r')
  with assms(1,2) show ?thesis by (auto simp: run_ok_def run_hist_def hist_simps)
qed (use assms(1,2) in \<open>auto simp: run_ok_def run_hist_def hist_simps\<close>)

lemma rstep_zero:
  assumes "run_ok 0 i e st" "run_zero e st" "rstep nse st l = Ok st'"
  shows "run_zero e st'"
  using assms(1,3)
proof (cases rule: rstep_effect)
  case (Zero)
  with assms(1,2) show ?thesis by (auto simp: run_ok_def run_zero_def chan_errs_append)
next
  case (Select j sel h' r')
  then show ?thesis by simp
qed (use assms(1,2) in \<open>auto simp: run_ok_def run_zero_def chan_errs_append\<close>)

lemma rexec_inv:
  "run_ok k i e st \<Longrightarrow> run_hist k nse i e pre st \<Longrightarrow> rexec nse st ls = Ok st' \<Longrightarrow>
   run_ok k i e st' \<and> run_hist k nse i e (pre @ ls) st'"
proof (induction ls arbitrary: st pre)
  case Nil
  then show ?case by simp
next
  case (Cons l ls)
  from Cons.prems(3) obtain s1 where s1: "rstep nse st l = Ok s1" "rexec nse s1 ls = Ok st'"
    by (cases "rstep nse st l") simp_all
  from rstep_ok[OF Cons.prems(1) s1(1)] have i1: "run_ok k i e s1" .
  from rstep_hist[OF Cons.prems(1,2) s1(1)] have h1: "run_hist k nse i e (pre @ [l]) s1" .
  from Cons.IH[OF i1 h1 s1(2)] show ?case by simp
qed

lemma rexec_zero:
  "run_ok 0 i e st \<Longrightarrow> run_zero e st \<Longrightarrow> rexec nse st ls = Ok st' \<Longrightarrow> run_zero e st'"
proof (induction ls arbitrary: st)
  case Nil
  then show ?case by simp
next
  case (Cons l ls)
  from Cons.prems(3) obtain s1 where s1: "rstep nse st l = Ok s1" "rexec nse s1 ls = Ok st'"
    by (cases "rstep nse st l") simp_all
  from rstep_ok[OF Cons.prems(1) s1(1)] have i1: "run_ok 0 i e s1" .
  from rstep_zero[OF Cons.prems(1,2) s1(1)] have z1: "run_zero e s1" .
  from Cons.IH[OF i1 z1 s1(2)] show ?case .
qed

lemma run_reach:
  assumes "start_run b h sr pr = Ok st0" "rexec nse st0 ls = Ok st"
  shows "run_ok (readConcurrency b) (nxt h) (Suc (nxt h)) st"
    and "run_hist (readConcurrency b) nse (nxt h) (Suc (nxt h)) ls st"
  using rexec_inv[OF start_run_ok(1,2)[OF assms(1)] assms(2)] by simp_all

lemma run_reach_zero:
  assumes "start_run b h sr pr = Ok st0" "rexec nse st0 ls = Ok st" "readConcurrency b = 0"
  shows "run_zero (Suc (nxt h)) st"
  using rexec_zero[OF _ start_run_ok(3)[OF assms(1)] assms(2)] start_run_ok(1)[OF assms(1)] assms(3)
  by simp

lemma sent_by_Cons: "sent_by w (m # ms) = (if fst m = w then m # sent_by w ms else sent_by w ms)"
  by (simp add: sent_by_def)

lemma mset_by_reader:
  "list_all (from_reader n) ms \<Longrightarrow>
   mset (chan_items ms) = (\<Sum>j<n. mset (chan_items (sent_by (Reader j) ms)))"
proof (induction ms)
  case Nil
  then show ?case by (simp add: sent_by_Nil)
next
  case (Cons m ms)
  from Cons.prems obtain j0 x where m: "m = (Reader j0, Item x)" and j0: "j0 < n"
    by (cases "(n, m)" rule: from_reader.cases) simp_all
  have "(\<Sum>j<n. mset (chan_items (sent_by (Reader j) (m # ms)))) =
        (\<Sum>j<n. (if j = j0 then {#x#} else {#}) + mset (chan_items (sent_by (Reader j) ms)))"
    by (intro sum.cong) (auto simp: m sent_by_Cons)
  also have "\<dots> = (\<Sum>j<n. (if j = j0 then {#x#} else {#})) + (\<Sum>j<n. mset (chan_items (sent_by (Reader j) ms)))"
    by (simp add: sum.distrib)
  also have "(\<Sum>j<n. (if j = j0 then {#x#} else {#})) = {#x#}"
    using j0 by (simp add: sum.delta)
  finally show ?case using Cons by (simp add: m)
qed

lemma sum_mset_nth:
  "(\<Sum>j<length xss. mset (xss ! j)) = mset (concat xss)"
proof -
  have "mset (concat xss) = sum_list (map mset xss)" by (simp add: mset_concat)
  also have "\<dots> = (\<Sum>j = 0..<length xss. mset (xss ! j))"
    by (simp add: sum_list_sum_nth)
  finally show ?thesis by (simp add: lessThan_atLeast0)
qed

lemma length_concat_const:
  "\<forall>xs\<in>set xss. length xs = n \<Longrightarrow> length (concat xss) = length xss * n"
  by (induction xss) simp_all

lemma from_reader_0: "\<not> from_reader 0 m"
  by (cases "(0::nat, m)" rule: from_reader.cases) simp_all

lemma run_chans:
  assumes "start_run b h sr pr = Ok st0" "rexec nse st0 ls = Ok st"
    "items (rb st) = Some i" "errs (rb st) = Some e"
  shows "i = nxt h" "e = Suc (nxt h)"
  using run_reach(1)[OF assms(1,2)] assms(3,4) by (simp_all add: run_ok_def)

section \<open>Lemmas on the whole instance\<close>

lemma inv_sys0: "sys_inv k (sys0 k)"
  by (simp add: sys_inv_def sys0_def newBatch_def)

lemma run_invI:
  "items b = Some i \<Longrightarrow> errs b = Some e \<Longrightarrow> done_ch b = Some d \<Longrightarrow>
   run_facts k (running b) i e d h r p \<Longrightarrow> run_inv k b h r p"
  by (simp add: run_inv_def)

lemma old_run_blocked:
  assumes "sys_inv k s" "g < nruns s" "g \<noteq> nruns s - 1"
  shows "phase (rsups s g) = RDone" "fin (psups s g)"
proof -
  from assms have "Suc g < nruns s" by arith
  with assms(1) show "phase (rsups s g) = RDone" "fin (psups s g)"
    by (auto simp: sys_inv_def)
qed

lemma all_runs_done:
  assumes "sys_inv k s" "\<not> running (bi s)" "g < nruns s"
  shows "phase (rsups s g) = RDone \<and> fin (psups s g)"
proof (cases "Suc g < nruns s")
  case True
  with assms(1) show ?thesis by (simp add: sys_inv_def)
next
  case False
  with assms(3) have g: "g = nruns s - 1" and n: "nruns s \<noteq> 0" by arith+
  from assms(1) n have "run_inv k (bi s) (hp s) (cur_rsup s) (cur_psup s)"
    by (simp add: sys_inv_def)
  with assms(2) have "phase (cur_rsup s) = RDone \<and> fin (cur_psup s)"
    by (auto simp: run_inv_def run_facts_def)
  with g show ?thesis by (simp add: cur_rsup_def cur_psup_def)
qed

lemma Go_accepted:
  "\<not> running b \<Longrightarrow> Go b h sr pr =
     Ok (b\<lparr>running := True, items := Some (nxt h), errs := Some (Suc (nxt h)),
            done_ch := Some (Suc (Suc (nxt h))), src := sr, proc := pr\<rparr>,
         h\<lparr>cells := (cells h)(nxt h := empty_chan, Suc (nxt h) := empty_chan,
               Suc (Suc (nxt h)) := empty_chan),
           nxt := Suc (Suc (Suc (nxt h)))\<rparr>,
         Some (Suc (nxt h)), True)"
  by (simp add: Go_def make_chan_def)

lemma Go_rejected:
  "running b \<Longrightarrow> Go b h sr pr =
     (case chan_send h (errs b) Caller (Err ErrConcurrentGoCalls) of
        Ok h' \<Rightarrow> Ok (b, h', errs b, False) | Panic m \<Rightarrow> Panic m | Block \<Rightarrow> Block)"
  by (simp add: Go_def)

lemma run_inv_fresh:
  "readConcurrency b = k \<Longrightarrow>
   run_inv k (b\<lparr>running := True, items := Some (nxt h), errs := Some (Suc (nxt h)),
            done_ch := Some (Suc (Suc (nxt h))), src := sr, proc := pr\<rparr>)
       (h\<lparr>cells := (cells h)(nxt h := empty_chan, Suc (nxt h) := empty_chan,
               Suc (Suc (nxt h)) := empty_chan),
           nxt := Suc (Suc (Suc (nxt h)))\<rparr>) new_rsup new_psup"
  by (simp add: run_inv_def run_facts_def new_rsup_def new_psup_def empty_chan_def)

lemma inv_update:
  assumes "sys_inv k s" "g < nruns s" "g = nruns s - 1" "nruns s' = nruns s"
    "readConcurrency (bi s') = k"
    "\<forall>g'. g' \<noteq> g \<longrightarrow> rsups s' g' = rsups s g' \<and> psups s' g' = psups s g'"
    "run_inv k (bi s') (hp s') (rsups s' g) (psups s' g)"
  shows "sys_inv k s'"
proof -
  have "\<forall>g'. Suc g' < nruns s' \<longrightarrow> phase (rsups s' g') = RDone \<and> fin (psups s' g')"
    using assms(1,3,4,6) by (auto simp: sys_inv_def)
  moreover have "run_inv k (bi s') (hp s') (cur_rsup s') (cur_psup s')"
    using assms(7) unfolding cur_rsup_def cur_psup_def assms(4) assms(3) .
  ultimately show ?thesis using assms(2,4,5) by (simp add: sys_inv_def)
qed

lemma cur_run_inv:
  assumes "sys_inv k s" "g < nruns s" "g = nruns s - 1"
  shows "run_inv k (bi s) (hp s) (rsups s g) (psups s g)"
proof -
  from assms(2) have n: "nruns s \<noteq> 0" by simp
  from assms(1) n have "run_inv k (bi s) (hp s) (cur_rsup s) (cur_psup s)"
    by (simp add: sys_inv_def)
  then show ?thesis
    unfolding assms(3) cur_rsup_def cur_psup_def .
qed

lemma live_reader_is_cur:
  assumes "sys_inv k s" "g < nruns s" "phase (rsups s g) \<noteq> RDone"
  shows "g = nruns s - 1"
  using old_run_blocked(1)[OF assms(1,2)] assms(3) by blast

lemma live_processor_is_cur:
  assumes "sys_inv k s" "g < nruns s" "\<not> fin (psups s g)"
  shows "g = nruns s - 1"
  using old_run_blocked(2)[OF assms(1,2)] assms(3) by blast

lemma run_inv_cancelled:
  "run_inv k b h (r\<lparr>cancelled := c\<rparr>) p = run_inv k b h r p"
  by (simp add: run_inv_def run_facts_def)

lemma step_Cancel_inv:
  assumes "sys_inv k s" "step nse s (LCancel g) = Ok s'"
  shows "sys_inv k s'"
proof -
  from assms(2) have g: "g < nruns s"
    and s': "s' = s\<lparr>rsups := (rsups s)(g := (rsups s g)\<lparr>cancelled := True\<rparr>)\<rparr>"
    by (auto split: if_splits)
  from g have n: "nruns s \<noteq> 0" "nruns s - 1 < nruns s" by simp_all
  have olds: "\<forall>g. Suc g < nruns s' \<longrightarrow> phase (rsups s' g) = RDone \<and> fin (psups s' g)"
    using assms(1) by (simp add: sys_inv_def s')
  have "rsups s' (nruns s - 1) = rsups s (nruns s - 1) \<or>
      rsups s' (nruns s - 1) = (rsups s (nruns s - 1))\<lparr>cancelled := True\<rparr>"
    by (simp add: s')
  moreover have "bi s' = bi s" "hp s' = hp s" "psups s' = psups s"
    by (simp_all add: s')
  ultimately have "run_inv k (bi s') (hp s') (rsups s' (nruns s - 1)) (psups s' (nruns s - 1))"
    using cur_run_inv[OF assms(1) n(2) refl] by (auto simp: run_inv_cancelled)
  then have "run_inv k (bi s') (hp s') (cur_rsup s') (cur_psup s')"
    by (simp add: cur_rsup_def cur_psup_def s')
  with olds show ?thesis using assms(1) n by (simp add: sys_inv_def s')
qed



lemma Go_rej_effect [consumes 3, case_names eff]:
  assumes "sys_inv k s" "step nse s (LGo sr pr) = Ok s'" "running (bi s)"
  obtains i e d where "nruns s \<noteq> 0" "nruns s - 1 < nruns s"
    "items (bi s) = Some i" "errs (bi s) = Some e" "done_ch (bi s) = Some d"
    "run_facts k (running (bi s)) i e d (hp s) (rsups s (nruns s - 1)) (psups s (nruns s - 1))"
    "\<not> closed (cells (hp s) e)"
    "bi s' = bi s" "nruns s' = nruns s" "rsups s' = rsups s" "psups s' = psups s"
    "readCalls s' = readCalls s"
    "hp s' = (hp s)\<lparr>cells := (cells (hp s))(e := (cells (hp s) e)\<lparr>sent := sent (cells (hp s) e) @ [(Caller, Err ErrConcurrentGoCalls)]\<rparr>)\<rparr>"
proof -
  from assms(1,3) have n: "nruns s \<noteq> 0" by (auto simp: sys_inv_def split: if_splits)
  then have g: "nruns s - 1 < nruns s" by simp
  from cur_run_inv[OF assms(1) g refl] obtain i e d where
    ch: "items (bi s) = Some i" "errs (bi s) = Some e" "done_ch (bi s) = Some d"
    and rf: "run_facts k (running (bi s)) i e d (hp s) (rsups s (nruns s - 1)) (psups s (nruns s - 1))"
    by (auto simp: run_inv_def)
  from assms(2,3) ch have nc: "\<not> closed (cells (hp s) e)"
    and s': "bi s' = bi s" "nruns s' = nruns s" "rsups s' = rsups s" "psups s' = psups s"
      "readCalls s' = readCalls s"
      "hp s' = (hp s)\<lparr>cells := (cells (hp s))(e := (cells (hp s) e)\<lparr>sent := sent (cells (hp s) e) @ [(Caller, Err ErrConcurrentGoCalls)]\<rparr>)\<rparr>"
    by (auto simp: Go_rejected chan_send_def split: if_splits)
  from n g ch rf nc s' show thesis by (rule that)
qed

lemma Go_acc_effect:
  assumes "step nse s (LGo sr pr) = Ok s'" "\<not> running (bi s)"
  shows "s' = s\<lparr>bi := (bi s)\<lparr>running := True, items := Some (nxt (hp s)), errs := Some (Suc (nxt (hp s))),
            done_ch := Some (Suc (Suc (nxt (hp s)))), src := sr, proc := pr\<rparr>,
       hp := (hp s)\<lparr>cells := (cells (hp s))(nxt (hp s) := empty_chan, Suc (nxt (hp s)) := empty_chan,
               Suc (Suc (nxt (hp s))) := empty_chan),
           nxt := Suc (Suc (Suc (nxt (hp s))))\<rparr>,
       nruns := Suc (nruns s),
       rsups := (rsups s)(nruns s := new_rsup),
       psups := (psups s)(nruns s := new_psup)\<rparr>"
  using assms by (simp add: Go_accepted)

lemma Readers_effect [consumes 2, case_names pos zero]:
  assumes "sys_inv k s" "step nse s (LReaders g) = Ok s'"
  obtains (pos) i e d where "0 < k" "g < nruns s" "nruns s - 1 = g" "phase (rsups s g) = RStart"
    "items (bi s) = Some i" "errs (bi s) = Some e" "done_ch (bi s) = Some d"
    "run_facts k (running (bi s)) i e d (hp s) (rsups s g) (psups s g)"
    "bi s' = bi s" "nruns s' = nruns s" "psups s' = psups s" "hp s' = hp s"
    "readCalls s' = readCalls s + unat k"
    "rsups s' = (rsups s)(g := (rsups s g)\<lparr>phase := RWait, readers := replicate (unat k) new_reader\<rparr>)"
  | (zero) i e d where "k = 0" "g < nruns s" "nruns s - 1 = g" "phase (rsups s g) = RStart"
    "items (bi s) = Some i" "errs (bi s) = Some e" "done_ch (bi s) = Some d"
    "run_facts k (running (bi s)) i e d (hp s) (rsups s g) (psups s g)"
    "bi s' = bi s" "nruns s' = nruns s" "psups s' = psups s"
    "readCalls s' = readCalls s"
    "hp s' = (hp s)\<lparr>cells := (cells (hp s))(e := (cells (hp s) e)\<lparr>sent := sent (cells (hp s) e) @ [(Supervisor, Err (ErrorsNew ''Read concurrency is 0''))]\<rparr>)\<rparr>"
    "rsups s' = (rsups s)(g := (rsups s g)\<lparr>phase := RWait\<rparr>)"
proof -
  from assms(2) have g: "g < nruns s" and ph: "phase (rsups s g) = RStart"
    by (auto simp: doReaders_begin_def split: if_splits)
  from ph have gc: "g = nruns s - 1"
    by (intro live_reader_is_cur[OF assms(1) g]) simp
  from cur_run_inv[OF assms(1) g gc] obtain i e d where
    ch: "items (bi s) = Some i" "errs (bi s) = Some e" "done_ch (bi s) = Some d"
    and rf: "run_facts k (running (bi s)) i e d (hp s) (rsups s g) (psups s g)"
    by (auto simp: run_inv_def)
  from assms(1) have k: "readConcurrency (bi s) = k" by (simp add: sys_inv_def)
  show thesis
  proof (cases "0 < k")
    case True
    with assms(2) g ph k have s': "bi s' = bi s" "nruns s' = nruns s" "psups s' = psups s"
      "hp s' = hp s" "readCalls s' = readCalls s + unat k"
      "rsups s' = (rsups s)(g := (rsups s g)\<lparr>phase := RWait, readers := replicate (unat k) new_reader\<rparr>)"
      by (auto simp: doReaders_begin_def)
    from True g gc[symmetric] ph ch rf s' show thesis by (rule pos)
  next
    case False
    then have k0: "k = 0" by (simp add: word_gt_0)
    from rf ph have nc: "\<not> closed (cells (hp s) e)" by (simp add: run_facts_def)
    with assms(2) g ph k k0 ch have s': "bi s' = bi s" "nruns s' = nruns s" "psups s' = psups s"
      "readCalls s' = readCalls s"
      "hp s' = (hp s)\<lparr>cells := (cells (hp s))(e := (cells (hp s) e)\<lparr>sent := sent (cells (hp s) e) @ [(Supervisor, Err (ErrorsNew ''Read concurrency is 0''))]\<rparr>)\<rparr>"
      "rsups s' = (rsups s)(g := (rsups s g)\<lparr>phase := RWait\<rparr>)"
      by (auto simp: doReaders_begin_def chan_send_def)
    from k0 g gc[symmetric] ph ch rf s' show thesis by (rule zero)
  qed
qed

lemma Select_effect [consumes 2, case_names eff]:
  assumes "sys_inv k s" "step nse s (LSelect g j sel) = Ok s'"
  obtains i e d h' r' where "g < nruns s" "nruns s - 1 = g" "phase (rsups s g) = RWait"
    "j < length (readers (rsups s g))" "length (readers (rsups s g)) = unat k"
    "items (bi s) = Some i" "errs (bi s) = Some e" "done_ch (bi s) = Some d"
    "run_facts k (running (bi s)) i e d (hp s) (rsups s g) (psups s g)"
    "(\<exists>x. sel = ItemsCase (Recv x) \<and> \<not> closed (cells (hp s) i) \<and> r' = readers (rsups s g) ! j \<and>
            h' = (hp s)\<lparr>cells := (cells (hp s))(i := (cells (hp s) i)\<lparr>sent := sent (cells (hp s) i) @ [(Reader j, Item x)]\<rparr>)\<rparr>) \<or>
         (sel = ItemsCase Closed \<and> h' = hp s \<and> r' = (readers (rsups s g) ! j)\<lparr>itemsClosed := True\<rparr>) \<or>
         (\<exists>x. sel = ErrsCase (Recv x) \<and> \<not> closed (cells (hp s) e) \<and> r' = readers (rsups s g) ! j \<and>
            h' = (hp s)\<lparr>cells := (cells (hp s))(e := (cells (hp s) e)\<lparr>sent := sent (cells (hp s) e) @ [(Reader j, Err (nse x))]\<rparr>)\<rparr>) \<or>
         (sel = ErrsCase Closed \<and> h' = hp s \<and> r' = (readers (rsups s g) ! j)\<lparr>errsClosed := True\<rparr>)"
    "bi s' = bi s" "nruns s' = nruns s" "psups s' = psups s" "hp s' = h'"
    "readCalls s' = readCalls s"
    "rsups s' = (rsups s)(g := (rsups s g)\<lparr>readers := (readers (rsups s g))[j := r']\<rparr>)"
proof -
  from assms(2) have g: "g < nruns s" and ph: "phase (rsups s g) = RWait"
    and j: "j < length (readers (rsups s g))"
    by (auto simp: doReaders_select_def split: if_splits)
  from assms(2) g ph j obtain h' r' where
    it: "read_iter nse (bi s) j (hp s) (readers (rsups s g) ! j) sel = Ok (h', r')"
    and s': "bi s' = bi s" "nruns s' = nruns s" "psups s' = psups s" "hp s' = h'"
      "readCalls s' = readCalls s"
      "rsups s' = (rsups s)(g := (rsups s g)\<lparr>readers := (readers (rsups s g))[j := r']\<rparr>)"
    by (auto simp: doReaders_select_def split: if_splits res.splits)
  from ph have gc: "g = nruns s - 1"
    by (intro live_reader_is_cur[OF assms(1) g]) simp
  from cur_run_inv[OF assms(1) g gc] obtain i e d where
    ch: "items (bi s) = Some i" "errs (bi s) = Some e" "done_ch (bi s) = Some d"
    and rf: "run_facts k (running (bi s)) i e d (hp s) (rsups s g) (psups s g)"
    by (auto simp: run_inv_def)
  from rf ph have len: "length (readers (rsups s g)) = unat k" by (simp add: run_facts_def)
  from g gc[symmetric] ph j len ch rf read_iter_cases[OF it ch(1,2)] s' show thesis by (rule that)
qed

lemma Close_effect [consumes 2, case_names eff]:
  assumes "sys_inv k s" "step nse s (LClose g) = Ok s'"
  obtains i e d where "g < nruns s" "nruns s - 1 = g" "phase (rsups s g) = RWait"
    "list_all returned (readers (rsups s g))"
    "items (bi s) = Some i" "errs (bi s) = Some e" "done_ch (bi s) = Some d"
    "run_facts k (running (bi s)) i e d (hp s) (rsups s g) (psups s g)"
    "\<not> closed (cells (hp s) i)" "\<not> closed (cells (hp s) e)" "i \<noteq> e"
    "bi s' = bi s" "nruns s' = nruns s" "psups s' = psups s" "readCalls s' = readCalls s"
    "hp s' = (hp s)\<lparr>cells := (cells (hp s))(i := (cells (hp s) i)\<lparr>closed := True\<rparr>,
           e := (cells (hp s) e)\<lparr>closed := True\<rparr>)\<rparr>"
    "rsups s' = (rsups s)(g := (rsups s g)\<lparr>phase := RDone, cancelled := True\<rparr>)"
proof -
  from assms(2) have g: "g < nruns s" and ph: "phase (rsups s g) = RWait"
    and al: "list_all returned (readers (rsups s g))"
    by (auto simp: doReaders_end_def split: if_splits)
  from ph have gc: "g = nruns s - 1"
    by (intro live_reader_is_cur[OF assms(1) g]) simp
  from cur_run_inv[OF assms(1) g gc] obtain i e d where
    ch: "items (bi s) = Some i" "errs (bi s) = Some e" "done_ch (bi s) = Some d"
    and rf: "run_facts k (running (bi s)) i e d (hp s) (rsups s g) (psups s g)"
    by (auto simp: run_inv_def)
  from rf ph have nc: "\<not> closed (cells (hp s) i)" "\<not> closed (cells (hp s) e)" "i \<noteq> e"
    by (auto simp: run_facts_def)
  from assms(2) g ph al ch nc have s': "bi s' = bi s" "nruns s' = nruns s" "psups s' = psups s"
      "readCalls s' = readCalls s"
      "hp s' = (hp s)\<lparr>cells := (cells (hp s))(i := (cells (hp s) i)\<lparr>closed := True\<rparr>,
           e := (cells (hp s) e)\<lparr>closed := True\<rparr>)\<rparr>"
      "rsups s' = (rsups s)(g := (rsups s g)\<lparr>phase := RDone, cancelled := True\<rparr>)"
    by (auto simp: doReaders_end_def chan_close_def)
  from g gc[symmetric] ph al ch rf nc s' show thesis by (rule that)
qed

lemma Recv_effect [consumes 2, case_names eff]:
  assumes "sys_inv k s" "step nse s (LRecv g) = Ok s'"
  obtains i e d p' where "g < nruns s" "nruns s - 1 = g" "\<not> fin (psups s g)" "\<not> eof (psups s g)"
    "items (bi s) = Some i" "errs (bi s) = Some e" "done_ch (bi s) = Some d"
    "run_facts k (running (bi s)) i e d (hp s) (rsups s g) (psups s g)"
    "p' = (psups s g)\<lparr>taken := Suc (taken (psups s g))\<rparr> \<and>
        taken (psups s g) < length (sent (cells (hp s) i)) \<or>
      p' = (psups s g)\<lparr>eof := True\<rparr> \<and> closed (cells (hp s) i) \<and>
        \<not> taken (psups s g) < length (sent (cells (hp s) i))"
    "bi s' = bi s" "nruns s' = nruns s" "rsups s' = rsups s" "hp s' = hp s"
    "readCalls s' = readCalls s"
    "psups s' = (psups s)(g := p')"
proof -
  from assms(2) have g: "g < nruns s" and nf: "\<not> fin (psups s g)" "\<not> eof (psups s g)"
    by (auto simp: doProcessors_body_def split: if_splits)
  from nf have gc: "g = nruns s - 1"
    by (intro live_processor_is_cur[OF assms(1) g]) simp
  from cur_run_inv[OF assms(1) g gc] obtain i e d where
    ch: "items (bi s) = Some i" "errs (bi s) = Some e" "done_ch (bi s) = Some d"
    and rf: "run_facts k (running (bi s)) i e d (hp s) (rsups s g) (psups s g)"
    by (auto simp: run_inv_def)
  from assms(2) g obtain p' where
    p': "doProcessors_body (bi s) (hp s) (psups s g) = Ok p'"
    and s': "bi s' = bi s" "nruns s' = nruns s" "rsups s' = rsups s" "hp s' = hp s"
      "readCalls s' = readCalls s"
      "psups s' = (psups s)(g := p')"
    by (auto split: res.splits)
  from p' ch nf have pc: "p' = (psups s g)\<lparr>taken := Suc (taken (psups s g))\<rparr> \<and>
        taken (psups s g) < length (sent (cells (hp s) i)) \<or>
      p' = (psups s g)\<lparr>eof := True\<rparr> \<and> closed (cells (hp s) i) \<and>
        \<not> taken (psups s g) < length (sent (cells (hp s) i))"
    by (auto simp: doProcessors_body_def split: if_splits)
  from g gc[symmetric] nf ch rf pc s' show thesis by (rule that)
qed

lemma Finish_effect [consumes 2, case_names eff]:
  assumes "sys_inv k s" "step nse s (LFinish g) = Ok s'"
  obtains i e d where "g < nruns s" "nruns s - 1 = g" "\<not> fin (psups s g)" "eof (psups s g)"
    "items (bi s) = Some i" "errs (bi s) = Some e" "done_ch (bi s) = Some d"
    "run_facts k (running (bi s)) i e d (hp s) (rsups s g) (psups s g)"
    "\<not> closed (cells (hp s) d)"
    "bi s' = (bi s)\<lparr>running := False\<rparr>" "nruns s' = nruns s" "rsups s' = rsups s"
    "readCalls s' = readCalls s"
    "hp s' = (hp s)\<lparr>cells := (cells (hp s))(d := (cells (hp s) d)\<lparr>closed := True\<rparr>)\<rparr>"
    "psups s' = (psups s)(g := (psups s g)\<lparr>fin := True\<rparr>)"
proof -
  from assms(2) have g: "g < nruns s" and nf: "\<not> fin (psups s g)" "eof (psups s g)"
    by (auto simp: doProcessors_end_def split: if_splits)
  from nf have gc: "g = nruns s - 1"
    by (intro live_processor_is_cur[OF assms(1) g]) simp
  from cur_run_inv[OF assms(1) g gc] obtain i e d where
    ch: "items (bi s) = Some i" "errs (bi s) = Some e" "done_ch (bi s) = Some d"
    and rf: "run_facts k (running (bi s)) i e d (hp s) (rsups s g) (psups s g)"
    by (auto simp: run_inv_def)
  from rf nf have nc: "\<not> closed (cells (hp s) d)"
    by (auto simp: run_facts_def)
  from assms(2) g nf ch nc have s': "bi s' = (bi s)\<lparr>running := False\<rparr>" "nruns s' = nruns s"
      "rsups s' = rsups s" "readCalls s' = readCalls s"
      "hp s' = (hp s)\<lparr>cells := (cells (hp s))(d := (cells (hp s) d)\<lparr>closed := True\<rparr>)\<rparr>"
      "psups s' = (psups s)(g := (psups s g)\<lparr>fin := True\<rparr>)"
    by (auto simp: doProcessors_end_def chan_close_def)
  from g gc[symmetric] nf ch rf nc s' show thesis by (rule that)
qed

lemma inv_update':
  assumes "sys_inv k s" "g < nruns s" "nruns s - 1 = g" "nruns s' = nruns s"
    "readConcurrency (bi s') = k"
    "\<forall>g'. g' \<noteq> g \<longrightarrow> rsups s' g' = rsups s g' \<and> psups s' g' = psups s g'"
    "items (bi s') = Some i" "errs (bi s') = Some e" "done_ch (bi s') = Some d"
    "run_facts k (running (bi s')) i e d (hp s') (rsups s' g) (psups s' g)"
  shows "sys_inv k s'"
proof -
  from assms(7-10) have "run_inv k (bi s') (hp s') (rsups s' g) (psups s' g)"
    by (rule run_invI)
  with assms(1-6) show ?thesis by (intro inv_update[of k s g s']) simp_all
qed

lemma inv_k: "sys_inv k s \<Longrightarrow> readConcurrency (bi s) = k"
  by (simp add: sys_inv_def)

lemma step_inv:
  assumes "sys_inv k s" "step nse s l = Ok s'"
  shows "sys_inv k s'"
proof (cases l)
  case (LGo sr pr)
  show ?thesis
  proof (cases "running (bi s)")
    case True
    from assms(1) assms(2)[unfolded LGo] True show ?thesis
    proof (cases rule: Go_rej_effect)
      case (eff i e d)
      have "run_facts k (running (bi s')) i e d (hp s') (rsups s' (nruns s - 1)) (psups s' (nruns s - 1))"
        using eff(6) by (auto simp: eff(8-13) run_facts_def)
      with eff inv_k[OF assms(1)] show ?thesis
        by (intro inv_update'[OF assms(1) eff(2) refl, of s' i e d]) simp_all
    qed
  next
    case False
    note s' = Go_acc_effect[OF assms(2)[unfolded LGo] False]
    from assms(1) have k: "readConcurrency (bi s) = k" by (simp add: sys_inv_def)
    have olds: "\<forall>g. Suc g < nruns s' \<longrightarrow> phase (rsups s' g) = RDone \<and> fin (psups s' g)"
      using all_runs_done[OF assms(1) False] by (simp add: s')
    have "run_inv k (bi s') (hp s') (cur_rsup s') (cur_psup s')"
      using run_inv_fresh[OF k] by (simp add: s' cur_rsup_def cur_psup_def)
    with olds k show ?thesis
      by (simp add: sys_inv_def s')
  qed
next
  case LDone
  with assms show ?thesis by simp
next
  case (LCancel g)
  with assms show ?thesis using step_Cancel_inv by simp
next
  case (LReaders g)
  from assms(1) assms(2)[unfolded LReaders] show ?thesis
  proof (cases rule: Readers_effect)
    case (pos i e d)
    have "run_facts k (running (bi s')) i e d (hp s') (rsups s' g) (psups s' g)"
      using pos(8) pos(4) by (auto simp: pos(9-14) run_facts_def)
    with pos inv_k[OF assms(1)] show ?thesis
      by (intro inv_update'[OF assms(1) pos(2,3), of s' i e d]) simp_all
  next
    case (zero i e d)
    have "run_facts k (running (bi s')) i e d (hp s') (rsups s' g) (psups s' g)"
      using zero(8) zero(4) zero(1) by (auto simp: zero(9-14) run_facts_def)
    with zero inv_k[OF assms(1)] show ?thesis
      by (intro inv_update'[OF assms(1) zero(2,3), of s' i e d]) simp_all
  qed
next
  case (LSelect g j sel)
  from assms(1) assms(2)[unfolded LSelect] show ?thesis
  proof (cases rule: Select_effect)
    case (eff i e d h' r')
    have "run_facts k (running (bi s')) i e d (hp s') (rsups s' g) (psups s' g)"
      using eff(9) eff(3) eff(10) by (auto simp: eff(11-16) run_facts_def)
    with eff inv_k[OF assms(1)] show ?thesis
      by (intro inv_update'[OF assms(1) eff(1,2), of s' i e d]) simp_all
  qed
next
  case (LClose g)
  from assms(1) assms(2)[unfolded LClose] show ?thesis
  proof (cases rule: Close_effect)
    case (eff i e d)
    have "run_facts k (running (bi s')) i e d (hp s') (rsups s' g) (psups s' g)"
      using eff(8) eff(3) eff(4) by (auto simp: eff(12-17) run_facts_def)
    with eff inv_k[OF assms(1)] show ?thesis
      by (intro inv_update'[OF assms(1) eff(1,2), of s' i e d]) simp_all
  qed
next
  case (LRecv g)
  from assms(1) assms(2)[unfolded LRecv] show ?thesis
  proof (cases rule: Recv_effect)
    case (eff i e d p')
    have "run_facts k (running (bi s')) i e d (hp s') (rsups s' g) (psups s' g)"
      using eff(8) eff(3) eff(4) eff(9) by (auto simp: eff(10-15) run_facts_def)
    with eff inv_k[OF assms(1)] show ?thesis
      by (intro inv_update'[OF assms(1) eff(1,2), of s' i e d]) simp_all
  qed
next
  case (LFinish g)
  from assms(1) assms(2)[unfolded LFinish] show ?thesis
  proof (cases rule: Finish_effect)
    case (eff i e d)
    have "run_facts k (running (bi s')) i e d (hp s') (rsups s' g) (psups s' g)"
      using eff(8) eff(3) eff(4) by (auto simp: eff(10-15) run_facts_def)
    with eff inv_k[OF assms(1)] show ?thesis
      by (intro inv_update'[OF assms(1) eff(1,2), of s' i e d]) simp_all
  qed
qed

lemma exec_inv:
  "sys_inv k s \<Longrightarrow> exec nse s ls = Ok s' \<Longrightarrow> sys_inv k s'"
proof (induction ls arbitrary: s)
  case Nil
  then show ?case by simp
next
  case (Cons l ls)
  from Cons.prems(2) obtain s1 where s1: "step nse s l = Ok s1" "exec nse s1 ls = Ok s'"
    by (cases "step nse s l") simp_all
  from step_inv[OF Cons.prems(1) s1(1)] have "sys_inv k s1" .
  from Cons.IH[OF this s1(2)] show ?case .
qed

lemma reach_inv: "exec nse (sys0 k) ls = Ok s \<Longrightarrow> sys_inv k s"
  using exec_inv[OF inv_sys0] .

lemma reach_run_facts:
  assumes "exec nse (sys0 k) ls = Ok s" "nruns s \<noteq> 0"
  obtains i e d where "items (bi s) = Some i" "errs (bi s) = Some e" "done_ch (bi s) = Some d"
    "run_facts k (running (bi s)) i e d (hp s) (cur_rsup s) (cur_psup s)"
  using reach_inv[OF assms(1)] assms(2) by (auto simp: sys_inv_def run_inv_def)

lemma reach_started:
  assumes "exec nse (sys0 k) ls = Ok s" "items (bi s) = Some i \<or> errs (bi s) = Some e \<or> done_ch (bi s) = Some d"
  shows "nruns s \<noteq> 0"
  using reach_inv[OF assms(1)] assms(2) by (auto simp: sys_inv_def split: if_splits)

lemma no_Go_nothing_happens:
  "nruns s = 0 \<Longrightarrow> list_all (\<lambda>l. \<not> is_Go l) ls \<Longrightarrow> exec nse s ls = Ok s' \<Longrightarrow> s' = s"
proof (induction ls)
  case Nil
  then show ?case by simp
next
  case (Cons l ls)
  then show ?case
    by (cases l) (auto split: res.splits)
qed

section \<open>Lemmas on the assembly engine and on concrete runs\<close>

lemma concat_assemble: "concat (assemble get n st evs) = buffer st @ arrivals evs"
  by (induction get n st evs rule: assemble.induct) simp_all

lemma Go_on_running_instance:
  "running b \<Longrightarrow> Go b h s p =
     (case errs b of
        None \<Rightarrow> Block
      | Some e \<Rightarrow>
          if closed (cells h e) then Panic ''send on closed channel''
          else Ok (b, h\<lparr>cells := (cells h)(e := (cells h e)\<lparr>sent := sent (cells h e) @
                         [(Caller, Err ErrConcurrentGoCalls)]\<rparr>)\<rparr>, errs b, False))"
  by (simp add: Go_def chan_send_def split: option.splits)

lemmas run_defs = newBatch_def empty_heap_def empty_chan_def new_rsup_def
  new_reader_def Go_def make_chan_def chan_send_def chan_close_def doReaders_begin_def
  doReaders_select_def doReaders_end_def returned_def start_run_def

lemmas sys_defs = run_defs sys0_def new_psup_def doProcessors_body_def doProcessors_end_def
  cur_rsup_def cur_psup_def

lemma unat_two: "unat (2::64 word) = 2"
  by simp

lemma replicate_two: "replicate 2 x = [x, x]"
  by (simp add: numeral_2_eq_2)

section \<open>The claims\<close>

text \<open>
  C1. A further call of \<^verbatim>\<open>Go\<close> on a running instance is meant to emit the "concurrent start"
  error on the stream it returns and to leave the run undisturbed. The code sends the
  error on \<^verbatim>\<open>b.errs\<close>, the running instance's own error stream. In every run, once
  \<^verbatim>\<open>doReaders\<close> has finished, which it does by closing both shared streams, the instance is
  still running (only the final section of \<^verbatim>\<open>doProcessors\<close> clears the flag), and any call
  of \<^verbatim>\<open>Go\<close> in that state panics: its send is a send on a closed channel.
\<close>

theorem Go_after_doReaders_finished_panics:
  assumes "start_run b h sr pr = Ok st0" "rexec nse st0 ls = Ok st" "phase (rg st) = RDone"
  shows "running (rb st) \<and>
         Go (rb st) (rh st) sr' pr' = Panic ''send on closed channel'' \<and>
         rstep nse st (RGo sr' pr') = Panic ''send on closed channel''"
  using run_reach(1)[OF assms(1,2)] assms(3)
  by (simp add: run_ok_def Go_def chan_send_def)

theorem Go_after_doReaders_finished_panics_witness:
  "\<exists>st0 st. start_run (newBatch 0) (empty_heap :: nat heap) None None = Ok st0 \<and>
     rexec id st0 [RReaders, RClose] = Ok st \<and> running (rb st) \<and>
     Go (rb st) (rh st) None None = Panic ''send on closed channel''"
proof -
  have "\<exists>st0 st. start_run (newBatch 0) (empty_heap :: nat heap) None None = Ok st0 \<and>
     rexec id st0 [RReaders, RClose] = Ok st \<and> phase (rg st) = RDone"
    by (simp add: run_defs)
  then obtain st0 st where e: "start_run (newBatch 0) (empty_heap :: nat heap) None None = Ok st0"
    "rexec id st0 [RReaders, RClose] = Ok st" "phase (rg st) = RDone"
    by blast
  from Go_after_doReaders_finished_panics[OF e, of None None] e(1,2) show ?thesis by blast
qed

text \<open>
  C2. No loss and no duplication. In every run, whatever the interleaving of its readers:
  once \<^verbatim>\<open>doReaders\<close> has closed the shared item stream and the engine has been fed the items
  of that stream (at any times, with any deadline expiries in between), the items of all
  sealed batches are, as a multiset, the items the readers received from their sources. If
  reader \<open>j\<close> of the \<open>K\<close> readers received the sequence \<open>xss ! j\<close>, the batches hold
  exactly the items of \<open>concat xss\<close>; with \<open>n\<close> items per reader that is \<open>K * n\<close> items,
  and each appears once when the sequences are disjoint and without repetition.
\<close>

theorem no_loss_no_duplication:
  assumes "start_run b h sr pr = Ok st0" "rexec nse st0 ls = Ok st"
    and "items (rb st) = Some i"
    and "closed (cells (rh st) i)"
    and "arrivals evs = chan_items (sent (cells (rh st) i))"
    and "length xss = unat (readConcurrency b)"
    and "\<forall>j<unat (readConcurrency b). run_items j ls = xss ! j"
  shows "mset (concat (assemble get 0 Empty evs)) = mset (concat xss) \<and>
         ((\<forall>xs\<in>set xss. length xs = n) \<longrightarrow>
            length (concat (assemble get 0 Empty evs)) = unat (readConcurrency b) * n) \<and>
         (distinct (concat xss) \<longrightarrow> distinct (concat (assemble get 0 Empty evs)))"
proof -
  note ok = run_reach(1)[OF assms(1,2)] and hist = run_reach(2)[OF assms(1,2)]
  from ok assms(3) have i: "i = nxt h" by (simp add: run_ok_def)
  from hist have hf: "\<forall>j. chan_items (sent_by (Reader j) (sent (cells (rh st) i))) = run_items j ls"
    "list_all (from_reader (unat (readConcurrency b))) (sent (cells (rh st) i))"
    by (simp_all add: run_hist_def i)
  have "mset (chan_items (sent (cells (rh st) i))) =
        (\<Sum>j<unat (readConcurrency b). mset (chan_items (sent_by (Reader j) (sent (cells (rh st) i)))))"
    using hf(2) by (rule mset_by_reader)
  also have "\<dots> = (\<Sum>j<unat (readConcurrency b). mset (xss ! j))"
    using hf(1) assms(7) by (intro sum.cong) simp_all
  also have "\<dots> = mset (concat xss)"
    using sum_mset_nth[of xss] assms(6) by simp
  finally have m: "mset (concat (assemble get 0 Empty evs)) = mset (concat xss)"
    by (simp add: concat_assemble assms(5))
  have l: "length (concat (assemble get 0 Empty evs)) = unat (readConcurrency b) * n"
    if "\<forall>xs\<in>set xss. length xs = n"
    using mset_eq_length[OF m] length_concat_const[OF that] assms(6) by simp
  have d: "distinct (concat (assemble get 0 Empty evs))" if "distinct (concat xss)"
    using mset_eq_imp_distinct_iff[OF m] that by simp
  from m l d show ?thesis by blast
qed

theorem no_loss_no_duplication_witness:
  "\<exists>st0 st. start_run (newBatch 2) (empty_heap :: nat heap) None None = Ok st0 \<and>
    rexec id st0
     [RReaders, RSelect 0 (ItemsCase (Recv 1)), RSelect 1 (ItemsCase (Recv 2)),
      RSelect 0 (ItemsCase Closed), RSelect 0 (ErrsCase Closed),
      RSelect 1 (ErrsCase Closed), RSelect 1 (ItemsCase Closed), RClose] = Ok st \<and>
    closed (cells (rh st) 0) \<and>
    mset (concat (assemble (\<lambda>_. zero_ConfigValues) 0 Empty [Arrive 0 (1::nat), Expire 3, Arrive 5 2])) =
      mset (concat [[1::nat], [2]]) \<and>
    length (concat (assemble (\<lambda>_. zero_ConfigValues) 0 Empty [Arrive 0 (1::nat), Expire 3, Arrive 5 2])) = 2 \<and>
    distinct (concat (assemble (\<lambda>_. zero_ConfigValues) 0 Empty [Arrive 0 (1::nat), Expire 3, Arrive 5 2]))"
proof -
  let ?ls = "[RReaders, RSelect 0 (ItemsCase (Recv (1::nat))), RSelect 1 (ItemsCase (Recv 2)),
      RSelect 0 (ItemsCase Closed), RSelect 0 (ErrsCase Closed),
      RSelect 1 (ErrsCase Closed), RSelect 1 (ItemsCase Closed), RClose]"
  let ?evs = "[Arrive 0 (1::nat), Expire 3, Arrive 5 2]"
  have "\<exists>st0 st. start_run (newBatch 2) (empty_heap :: nat heap) None None = Ok st0 \<and>
      rexec id st0 ?ls = Ok st \<and> items (rb st) = Some 0 \<and> closed (cells (rh st) 0) \<and>
      arrivals ?evs = chan_items (sent (cells (rh st) 0))"
    by (simp add: run_defs unat_two replicate_two)
  then obtain st0 st where e: "start_run (newBatch 2) (empty_heap :: nat heap) None None = Ok st0"
    "rexec id st0 ?ls = Ok st" and f: "items (rb st) = Some 0" "closed (cells (rh st) 0)"
    "arrivals ?evs = chan_items (sent (cells (rh st) 0))"
    by blast
  have r: "\<forall>j<unat (readConcurrency (newBatch 2)). run_items j ?ls = [[1], [2]] ! j"
    by (simp add: newBatch_def unat_two less_2_cases_iff)
  have len: "length [[1::nat], [2]] = unat (readConcurrency (newBatch 2))"
    by (simp add: newBatch_def unat_two)
  have a: "\<forall>xs\<in>set [[1::nat], [2]]. length xs = 1" "distinct (concat [[1::nat], [2]])"
    by simp_all
  from no_loss_no_duplication[OF e f len r, of "\<lambda>_. zero_ConfigValues" 1] a
  have "mset (concat (assemble (\<lambda>_. zero_ConfigValues) 0 Empty ?evs)) = mset (concat [[1::nat], [2]]) \<and>
    length (concat (assemble (\<lambda>_. zero_ConfigValues) 0 Empty ?evs)) = 2 \<and>
    distinct (concat (assemble (\<lambda>_. zero_ConfigValues) 0 Empty ?evs))"
    by (simp del: assemble.simps add: newBatch_def unat_two)
  with e f(2) show ?thesis by blast
qed

text \<open>
  C3. The loop of a reader, started while the two shared streams are open, returns exactly
  when its \<^verbatim>\<open>select\<close> has reported both of its source's streams closed. The firing of the
  cancellation token is not among the events the loop reacts to: removing those events
  from its environment changes nothing, so cancellation alone never ends the loop. When
  the loop returns, every item and every error the source has put on its streams has
  been forwarded, the errors passed through \<^verbatim>\<open>newSourceError\<close>.
\<close>

theorem read_returns_iff_both_closed:
  assumes "items b = Some ci" "errs b = Some ce"
    and "\<not> closed (cells h ci)" "\<not> closed (cells h ce)"
  shows "((\<exists>h'. read nse b j h evs = Returned h') \<longleftrightarrow>
            (Select (ItemsCase Closed) \<in> set evs \<and> Select (ErrsCase Closed) \<in> set evs)) \<and>
         read nse b j h (filter (\<lambda>ev. ev \<noteq> CtxDone) evs) = read nse b j h evs \<and>
         (\<forall>h'. chan_discipline False False evs \<and> read nse b j h evs = Returned h' \<longrightarrow>
            chan_items (sent (cells h' ci)) = chan_items (sent (cells h ci)) @ src_items evs \<and>
            chan_errs (sent (cells h' ce)) = chan_errs (sent (cells h ce)) @ map nse (src_errs evs))"
proof -
  have nr: "\<not> returned new_reader" by (simp add: returned_def new_reader_def)
  have a: "(\<exists>h'. read nse b j h evs = Returned h') \<longleftrightarrow>
            (Select (ItemsCase Closed) \<in> set evs \<and> Select (ErrsCase Closed) \<in> set evs)"
    using read_loop_returns_iff[OF assms nr, of nse j evs]
    by (simp add: read_def new_reader_def)
  have b: "read nse b j h (filter (\<lambda>ev. ev \<noteq> CtxDone) evs) = read nse b j h evs"
    by (simp add: read_def read_loop_ignores_CtxDone)
  have c: "chan_items (sent (cells h' ci)) = chan_items (sent (cells h ci)) @ src_items evs \<and>
            chan_errs (sent (cells h' ce)) = chan_errs (sent (cells h ce)) @ map nse (src_errs evs)"
    if "chan_discipline False False evs" "read nse b j h evs = Returned h'" for h'
    using read_loop_forwards[OF assms nr, of evs nse j h'] that
    by (simp add: read_def new_reader_def)
  from a b c show ?thesis by blast
qed

theorem read_returns_iff_both_closed_witness:
  "\<exists>h'. read id ((newBatch 1)\<lparr>items := Some 0, errs := Some 1\<rparr>) 0 empty_heap
       [Select (ItemsCase (Recv (7::nat))), CtxDone, Select (ErrsCase (Recv (ErrorsNew ''e''))),
        Select (ItemsCase Closed), Select (ErrsCase Closed)] = Returned h' \<and>
     chan_items (sent (cells h' 0)) = [7] \<and>
     chan_errs (sent (cells h' 1)) = [ErrorsNew ''e'']"
proof -
  let ?b = "(newBatch 1)\<lparr>items := Some 0, errs := Some 1\<rparr>"
  let ?evs = "[Select (ItemsCase (Recv (7::nat))), CtxDone, Select (ErrsCase (Recv (ErrorsNew ''e''))),
        Select (ItemsCase Closed), Select (ErrsCase Closed)]"
  have h: "items ?b = Some 0" "errs ?b = Some 1"
    "\<not> closed (cells (empty_heap :: nat heap) 0)" "\<not> closed (cells (empty_heap :: nat heap) 1)"
    by (simp_all add: empty_heap_def empty_chan_def)
  note t = read_returns_iff_both_closed[OF h, of id 0 ?evs]
  from t have "\<exists>h'. read id ?b 0 empty_heap ?evs = Returned h'" by simp
  then obtain h' where r: "read id ?b 0 empty_heap ?evs = Returned h'" ..
  from t r have "chan_items (sent (cells h' 0)) = [7] \<and> chan_errs (sent (cells h' 1)) = [ErrorsNew ''e'']"
    by (simp add: empty_heap_def empty_chan_def)
  with r show ?thesis by blast
qed

text \<open>
  C4. In every state of every run: if the shared item stream or the shared error stream
  is closed, then all \<^verbatim>\<open>readConcurrency\<close> readers of the run have returned, each with both
  of its flags set; and once \<^verbatim>\<open>doReaders\<close> waits with all its readers returned, its closing
  section succeeds and closes both shared streams.
\<close>

theorem doReaders_closes_after_all_readers:
  assumes "start_run b h sr pr = Ok st0" "rexec nse st0 ls = Ok st"
    and "items (rb st) = Some i" "errs (rb st) = Some e"
  shows "(closed (cells (rh st) i) \<or> closed (cells (rh st) e) \<longrightarrow>
            length (readers (rg st)) = unat (readConcurrency b) \<and>
            list_all returned (readers (rg st))) \<and>
         (phase (rg st) = RWait \<and> list_all returned (readers (rg st)) \<longrightarrow>
            length (readers (rg st)) = unat (readConcurrency b) \<and>
            (\<exists>st'. rstep nse st RClose = Ok st' \<and>
                   closed (cells (rh st') i) \<and> closed (cells (rh st') e)))"
proof -
  note ok = run_reach(1)[OF assms(1,2)]
  note c = run_chans[OF assms]
  have a: "closed (cells (rh st) i) \<or> closed (cells (rh st) e) \<longrightarrow>
            length (readers (rg st)) = unat (readConcurrency b) \<and>
            list_all returned (readers (rg st))"
    using ok by (auto simp: run_ok_def c)
  have b: "\<exists>st'. rstep nse st RClose = Ok st' \<and>
                   closed (cells (rh st') i) \<and> closed (cells (rh st') e)"
    if "phase (rg st) = RWait" "list_all returned (readers (rg st))"
    using that ok by (auto simp: run_ok_def c doReaders_end_def chan_close_def)
  have d: "length (readers (rg st)) = unat (readConcurrency b)" if "phase (rg st) = RWait"
    using that ok by (auto simp: run_ok_def)
  from a b d show ?thesis by blast
qed

theorem doReaders_closes_after_all_readers_witness:
  "\<exists>st0 st. start_run (newBatch 2) (empty_heap :: nat heap) None None = Ok st0 \<and>
    rexec id st0
     [RReaders, RSelect 1 (ItemsCase (Recv 4)), RSelect 1 (ItemsCase Closed),
      RSelect 0 (ErrsCase Closed), RSelect 0 (ItemsCase Closed),
      RSelect 1 (ErrsCase Closed)] = Ok st \<and>
    \<not> closed (cells (rh st) 0) \<and> \<not> closed (cells (rh st) 1) \<and>
    length (readers (rg st)) = 2 \<and>
    (\<exists>st'. rstep id st RClose = Ok st' \<and> closed (cells (rh st') 0) \<and> closed (cells (rh st') 1))"
proof -
  let ?ls = "[RReaders, RSelect 1 (ItemsCase (Recv (4::nat))), RSelect 1 (ItemsCase Closed),
      RSelect 0 (ErrsCase Closed), RSelect 0 (ItemsCase Closed),
      RSelect 1 (ErrsCase Closed)]"
  have "\<exists>st0 st. start_run (newBatch 2) (empty_heap :: nat heap) None None = Ok st0 \<and>
      rexec id st0 ?ls = Ok st \<and> items (rb st) = Some 0 \<and> errs (rb st) = Some 1 \<and>
      phase (rg st) = RWait \<and> list_all returned (readers (rg st)) \<and>
      \<not> closed (cells (rh st) 0) \<and> \<not> closed (cells (rh st) 1)"
    by (simp add: run_defs unat_two replicate_two)
  then obtain st0 st where e: "start_run (newBatch 2) (empty_heap :: nat heap) None None = Ok st0"
    "rexec id st0 ?ls = Ok st" and f: "items (rb st) = Some 0" "errs (rb st) = Some 1"
    and g: "phase (rg st) = RWait" "list_all returned (readers (rg st))"
    "\<not> closed (cells (rh st) 0)" "\<not> closed (cells (rh st) 1)"
    by blast
  from doReaders_closes_after_all_readers[OF e f] g(1,2)
  have "length (readers (rg st)) = 2 \<and>
    (\<exists>st'. rstep id st RClose = Ok st' \<and> closed (cells (rh st') 0) \<and> closed (cells (rh st') 1))"
    by (simp add: newBatch_def unat_two)
  with e g(3,4) show ?thesis by blast
qed

text \<open>
  C5. With reader concurrency 0, in every state of every run: the source's \<^verbatim>\<open>Read\<close> has
  not been called, the run has no reader and no reader iteration can happen, nothing is
  on the shared item stream, and, apart from the errors by which \<^verbatim>\<open>Go\<close> rejects concurrent
  calls, the error stream holds nothing before \<^verbatim>\<open>doReaders\<close> has made its test and exactly
  the one configuration error after it. The test, when it has not been made, succeeds and
  puts that error on the error stream.
\<close>

theorem zero_concurrency_one_error_no_reads:
  assumes "start_run b h sr pr = Ok st0" "rexec nse st0 ls = Ok st"
    and "readConcurrency b = 0"
    and "items (rb st) = Some i" "errs (rb st) = Some e"
  shows "rcalls st = 0 \<and> readers (rg st) = [] \<and> sent (cells (rh st) i) = [] \<and>
         rstep nse st (RSelect j sel) = Block \<and>
         filter (\<lambda>x. x \<noteq> ErrConcurrentGoCalls) (chan_errs (sent (cells (rh st) e))) =
           (if phase (rg st) = RStart then [] else [ErrorsNew ''Read concurrency is 0'']) \<and>
         (phase (rg st) = RStart \<longrightarrow>
            (\<exists>st'. rstep nse st RReaders = Ok st' \<and> phase (rg st') = RWait \<and> rcalls st' = 0 \<and>
                   sent (cells (rh st') e) =
                     sent (cells (rh st) e) @ [(Supervisor, Err (ErrorsNew ''Read concurrency is 0''))]))"
proof -
  note ok = run_reach(1)[OF assms(1,2)] and hist = run_reach(2)[OF assms(1,2)]
  note c = run_chans[OF assms(1,2,4,5)]
  from ok assms(3) have r: "readers (rg st) = []"
    by (cases "phase (rg st) = RStart") (auto simp: run_ok_def)
  from hist assms(3) have "list_all (from_reader 0) (sent (cells (rh st) i))"
    by (simp add: run_hist_def c)
  then have it: "sent (cells (rh st) i) = []"
    by (cases "sent (cells (rh st) i)") (auto simp: from_reader_0)
  from r have bl: "rstep nse st (RSelect j sel) = Block"
    by (simp add: doReaders_select_def)
  have z: "rcalls st = 0" 
    "filter (\<lambda>x. x \<noteq> ErrConcurrentGoCalls) (chan_errs (sent (cells (rh st) e))) =
           (if phase (rg st) = RStart then [] else [ErrorsNew ''Read concurrency is 0''])"
    using run_reach_zero[OF assms(1,2,3)] by (simp_all add: run_zero_def c)
  have p: "\<exists>st'. rstep nse st RReaders = Ok st' \<and> phase (rg st') = RWait \<and> rcalls st' = 0 \<and>
                   sent (cells (rh st') e) =
                     sent (cells (rh st) e) @ [(Supervisor, Err (ErrorsNew ''Read concurrency is 0''))]"
    if "phase (rg st) = RStart"
    using that ok assms(3) z(1) by (auto simp: run_ok_def doReaders_begin_def chan_send_def c)
  from r it bl z p show ?thesis by blast
qed

theorem zero_concurrency_one_error_no_reads_witness:
  "\<exists>st0 st. start_run (newBatch 0) (empty_heap :: nat heap) None None = Ok st0 \<and>
     rexec id st0 [RReaders, RGo None None, RClose] = Ok st \<and>
     phase (rg st) = RDone \<and> rcalls st = 0 \<and> sent (cells (rh st) 0) = [] \<and>
     rstep id st (RSelect 0 (ItemsCase (Recv 1))) = Block \<and>
     filter (\<lambda>x. x \<noteq> ErrConcurrentGoCalls) (chan_errs (sent (cells (rh st) 1))) =
       [ErrorsNew ''Read concurrency is 0'']"
proof -
  let ?ls = "[RReaders, RGo None None, RClose] :: nat rlabel list"
  have "\<exists>st0 st. start_run (newBatch 0) (empty_heap :: nat heap) None None = Ok st0 \<and>
      rexec id st0 ?ls = Ok st \<and> items (rb st) = Some 0 \<and> errs (rb st) = Some 1 \<and>
      phase (rg st) = RDone"
    by (simp add: run_defs)
  then obtain st0 st where e: "start_run (newBatch 0) (empty_heap :: nat heap) None None = Ok st0"
    "rexec id st0 ?ls = Ok st" and f: "items (rb st) = Some 0" "errs (rb st) = Some 1"
    and g: "phase (rg st) = RDone"
    by blast
  have k: "readConcurrency (newBatch 0) = 0" by (simp add: newBatch_def)
  from zero_concurrency_one_error_no_reads[OF e k f, of 0 "ItemsCase (Recv 1)"] g
  have "rcalls st = 0 \<and> sent (cells (rh st) 0) = [] \<and>
     rstep id st (RSelect 0 (ItemsCase (Recv 1))) = Block \<and>
     filter (\<lambda>x. x \<noteq> ErrConcurrentGoCalls) (chan_errs (sent (cells (rh st) 1))) =
       [ErrorsNew ''Read concurrency is 0'']"
    by simp
  with e g show ?thesis by blast
qed

text \<open>
  C6. In every state of every run, the part of the shared item stream that reader \<open>j\<close>
  has contributed is, in the same order, the sequence of items that reader's \<^verbatim>\<open>select\<close>
  has received from its source, whatever the interleaving with its error stream and with
  the other readers.
\<close>

theorem reader_order_preserved:
  assumes "start_run b h sr pr = Ok st0" "rexec nse st0 ls = Ok st"
    and "items (rb st) = Some i"
  shows "chan_items (sent_by (Reader j) (sent (cells (rh st) i))) = run_items j ls"
proof -
  note ok = run_reach(1)[OF assms(1,2)] and hist = run_reach(2)[OF assms(1,2)]
  from ok assms(3) have i: "i = nxt h" by (simp add: run_ok_def)
  from hist show ?thesis by (simp add: run_hist_def i)
qed

theorem reader_order_preserved_witness:
  "\<exists>st0 st. start_run (newBatch 2) (empty_heap :: nat heap) None None = Ok st0 \<and>
    rexec id st0
     [RReaders, RSelect 1 (ItemsCase (Recv 10)), RSelect 0 (ItemsCase (Recv 20)),
      RSelect 1 (ErrsCase (Recv (ErrorsNew ''e''))), RSelect 1 (ItemsCase (Recv 11)),
      RSelect 0 (ItemsCase (Recv 21))] = Ok st \<and>
    chan_items (sent (cells (rh st) 0)) = [10, 20, 11, 21] \<and>
    chan_items (sent_by (Reader 1) (sent (cells (rh st) 0))) = [10, 11]"
proof -
  let ?ls = "[RReaders, RSelect 1 (ItemsCase (Recv (10::nat))), RSelect 0 (ItemsCase (Recv 20)),
      RSelect 1 (ErrsCase (Recv (ErrorsNew ''e''))), RSelect 1 (ItemsCase (Recv 11)),
      RSelect 0 (ItemsCase (Recv 21))]"
  have "\<exists>st0 st. start_run (newBatch 2) (empty_heap :: nat heap) None None = Ok st0 \<and>
      rexec id st0 ?ls = Ok st \<and> items (rb st) = Some 0 \<and>
      chan_items (sent (cells (rh st) 0)) = [10, 20, 11, 21]"
    by (simp add: run_defs unat_two replicate_two)
  then obtain st0 st where e: "start_run (newBatch 2) (empty_heap :: nat heap) None None = Ok st0"
    "rexec id st0 ?ls = Ok st" and f: "items (rb st) = Some 0"
    and g: "chan_items (sent (cells (rh st) 0)) = [10, 20, 11, 21]"
    by blast
  from reader_order_preserved[OF e f, of 1]
  have "chan_items (sent_by (Reader 1) (sent (cells (rh st) 0))) = [10, 11]"
    by simp
  with e g show ?thesis by blast
qed

text \<open>
  C7. In every state reached from a fresh instance: if the channel that \<^verbatim>\<open>Done\<close> returns is
  observable (a receive on it proceeds), then \<^verbatim>\<open>running\<close> is false, \<^verbatim>\<open>doProcessors\<close> has seen
  the end of input, has taken every item of the shared item stream and has finished, and
  ingestion has drained: both shared streams are closed and every reader has returned. So
  the signal is never observable while the instance is running. It fires once: when
  \<^verbatim>\<open>doProcessors\<close> has seen the end of input and has not finished, the signal is not yet
  observable, its final section succeeds, makes the signal observable with \<^verbatim>\<open>running\<close>
  false, and cannot run a second time.
\<close>

theorem done_signal_only_after_drain:
  assumes "exec nse (sys0 k) ls = Ok s"
  shows "(observable (hp s) (Done (bi s)) \<longrightarrow>
            \<not> running (bi s) \<and> fin (cur_psup s) \<and> eof (cur_psup s) \<and>
            phase (cur_rsup s) = RDone \<and> list_all returned (readers (cur_rsup s)) \<and>
            observable (hp s) (items (bi s)) \<and> observable (hp s) (errs (bi s)) \<and>
            (\<forall>i. items (bi s) = Some i \<longrightarrow> taken (cur_psup s) = length (sent (cells (hp s) i)))) \<and>
         (running (bi s) \<longrightarrow> \<not> observable (hp s) (Done (bi s))) \<and>
         (nruns s \<noteq> 0 \<and> eof (cur_psup s) \<and> \<not> fin (cur_psup s) \<longrightarrow>
            \<not> observable (hp s) (Done (bi s)) \<and>
            (\<exists>s'. step nse s (LFinish (nruns s - 1)) = Ok s' \<and>
                  observable (hp s') (Done (bi s')) \<and> \<not> running (bi s') \<and>
                  Done (bi s') = Done (bi s) \<and>
                  step nse s' (LFinish (nruns s - 1)) = Block))"
proof (cases "nruns s = 0")
  case True
  with reach_inv[OF assms] show ?thesis
    by (simp add: sys_inv_def observable_def Done_def)
next
  case False
  from assms False obtain i e d where ch: "items (bi s) = Some i" "errs (bi s) = Some e"
    "done_ch (bi s) = Some d"
    and rf: "run_facts k (running (bi s)) i e d (hp s) (cur_rsup s) (cur_psup s)"
    by (rule reach_run_facts)
  have a: "observable (hp s) (Done (bi s)) \<longrightarrow>
            \<not> running (bi s) \<and> fin (cur_psup s) \<and> eof (cur_psup s) \<and>
            phase (cur_rsup s) = RDone \<and> list_all returned (readers (cur_rsup s)) \<and>
            observable (hp s) (items (bi s)) \<and> observable (hp s) (errs (bi s)) \<and>
            (\<forall>i. items (bi s) = Some i \<longrightarrow> taken (cur_psup s) = length (sent (cells (hp s) i)))"
    using rf ch by (auto simp: run_facts_def observable_def Done_def)
  have b: "running (bi s) \<longrightarrow> \<not> observable (hp s) (Done (bi s))"
    using rf ch by (auto simp: run_facts_def observable_def Done_def)
  have c: "\<not> observable (hp s) (Done (bi s)) \<and>
            (\<exists>s'. step nse s (LFinish (nruns s - 1)) = Ok s' \<and>
                  observable (hp s') (Done (bi s')) \<and> \<not> running (bi s') \<and>
                  Done (bi s') = Done (bi s) \<and>
                  step nse s' (LFinish (nruns s - 1)) = Block)"
    if "eof (cur_psup s)" "\<not> fin (cur_psup s)"
    using that rf ch False
    by (auto simp: run_facts_def observable_def Done_def cur_psup_def doProcessors_end_def
        chan_close_def)
  from a b c show ?thesis by blast
qed

theorem done_signal_only_after_drain_witness:
  "\<exists>s. exec id (sys0 1)
     [LGo None None, LReaders 0, LSelect 0 0 (ItemsCase (Recv (3::nat))), LRecv 0,
      LSelect 0 0 (ErrsCase Closed), LSelect 0 0 (ItemsCase Closed), LClose 0, LRecv 0,
      LFinish 0] = Ok s \<and>
    observable (hp s) (Done (bi s)) \<and> \<not> running (bi s) \<and> phase (cur_rsup s) = RDone \<and>
    observable (hp s) (items (bi s)) \<and> observable (hp s) (errs (bi s)) \<and>
    taken (cur_psup s) = length (sent (cells (hp s) 0))"
proof -
  let ?ls = "[LGo None None, LReaders 0, LSelect 0 0 (ItemsCase (Recv (3::nat))), LRecv 0,
      LSelect 0 0 (ErrsCase Closed), LSelect 0 0 (ItemsCase Closed), LClose 0, LRecv 0,
      LFinish 0]"
  have "\<exists>s. exec id (sys0 1) ?ls = Ok s \<and> observable (hp s) (Done (bi s)) \<and>
      items (bi s) = Some 0"
    by (simp add: sys_defs observable_def Done_def)
  then obtain s where e: "exec id (sys0 1) ?ls = Ok s" and f: "observable (hp s) (Done (bi s))"
    "items (bi s) = Some 0"
    by blast
  from done_signal_only_after_drain[OF e] f e show ?thesis by auto
qed

text \<open>
  C8. In the loop of a reader that has not returned, with the shared streams open: an
  error received from the source is passed through \<^verbatim>\<open>newSourceError\<close> and put on the shared
  error stream, and the loop goes on with its next event in the same state, so no source
  error ends it. Over a whole run of the loop, the errors it has forwarded are the source's
  errors, each wrapped, in order, and the items after any error are forwarded as well.
\<close>

theorem read_wraps_source_errors_and_continues:
  assumes "items b = Some ci" "errs b = Some ce"
    and "\<not> closed (cells h ci)" "\<not> closed (cells h ce)" "\<not> returned r"
  shows "(\<exists>h1. chan_send h (errs b) (Reader j) (Err (nse e)) = Ok h1 \<and>
            sent (cells h1 ce) = sent (cells h ce) @ [(Reader j, Err (nse e))] \<and>
            read_loop nse b j h r (Select (ErrsCase (Recv e)) # evs) = read_loop nse b j h1 r evs) \<and>
         (\<forall>h'. chan_discipline (itemsClosed r) (errsClosed r) evs \<and>
               read_loop nse b j h r evs = Returned h' \<longrightarrow>
            chan_errs (sent (cells h' ce)) = chan_errs (sent (cells h ce)) @ map nse (src_errs evs) \<and>
            chan_items (sent (cells h' ci)) = chan_items (sent (cells h ci)) @ src_items evs)"
proof -
  have a: "\<exists>h1. chan_send h (errs b) (Reader j) (Err (nse e)) = Ok h1 \<and>
            sent (cells h1 ce) = sent (cells h ce) @ [(Reader j, Err (nse e))] \<and>
            read_loop nse b j h r (Select (ErrsCase (Recv e)) # evs) = read_loop nse b j h1 r evs"
    using assms by (auto simp: chan_send_def returned_def)
  have c: "chan_errs (sent (cells h' ce)) = chan_errs (sent (cells h ce)) @ map nse (src_errs evs) \<and>
            chan_items (sent (cells h' ci)) = chan_items (sent (cells h ci)) @ src_items evs"
    if "chan_discipline (itemsClosed r) (errsClosed r) evs" "read_loop nse b j h r evs = Returned h'"
    for h'
    using read_loop_forwards[OF assms that] by simp
  from a c show ?thesis by blast
qed

theorem read_wraps_source_errors_and_continues_witness:
  "\<exists>h'. read_loop (\<lambda>e. ErrorsNew ''wrapped'') ((newBatch 1)\<lparr>items := Some 0, errs := Some 1\<rparr>) 0
       empty_heap new_reader
       [Select (ErrsCase (Recv (ErrorsNew ''e''))), Select (ItemsCase (Recv (7::nat))),
        Select (ErrsCase Closed), Select (ItemsCase Closed)] = Returned h' \<and>
     chan_errs (sent (cells h' 1)) = [ErrorsNew ''wrapped''] \<and>
     chan_items (sent (cells h' 0)) = [7]"
proof -
  let ?b = "(newBatch 1)\<lparr>items := Some 0, errs := Some 1\<rparr>"
  let ?evs = "[Select (ErrsCase (Recv (ErrorsNew ''e''))), Select (ItemsCase (Recv (7::nat))),
        Select (ErrsCase Closed), Select (ItemsCase Closed)]"
  have h: "items ?b = Some 0" "errs ?b = Some 1"
    "\<not> closed (cells (empty_heap :: nat heap) 0)" "\<not> closed (cells (empty_heap :: nat heap) 1)"
    "\<not> returned new_reader"
    by (simp_all add: empty_heap_def empty_chan_def returned_def new_reader_def)
  have "\<exists>h'. read_loop (\<lambda>e. ErrorsNew ''wrapped'') ?b 0 empty_heap new_reader ?evs = Returned h'"
    by (simp add: run_defs)
  then obtain h' where r: "read_loop (\<lambda>e. ErrorsNew ''wrapped'') ?b 0 empty_heap new_reader ?evs = Returned h'" ..
  from read_wraps_source_errors_and_continues[OF h, of 0 "\<lambda>e. ErrorsNew ''wrapped''" "ErrorsNew ''e''" ?evs] r
  have "chan_errs (sent (cells h' 1)) = [ErrorsNew ''wrapped''] \<and> chan_items (sent (cells h' 0)) = [7]"
    by (simp add: empty_heap_def empty_chan_def new_reader_def)
  with r show ?thesis by blast
qed

text \<open>
  C9. A \<^verbatim>\<open>ConstantConfig\<close> built by \<^verbatim>\<open>NewConstantConfig\<close> from a non-nil pointer returns, at
  every call of \<^verbatim>\<open>Get\<close>, the values the pointer held at construction, whatever the caller's
  memory holds by then; so any two calls return equal results.
\<close>

theorem ConstantConfig_Get_constant:
  "Get mem1 (NewConstantConfig mem (Some p)) = mem p \<and>
   Get mem1 (NewConstantConfig mem (Some p)) = Get mem2 (NewConstantConfig mem (Some p))"
  by (simp add: Get_def NewConstantConfig_def)

text \<open>
  C10. As long as no call of \<^verbatim>\<open>Go\<close> has been made on a fresh instance, whatever else has
  been attempted, \<^verbatim>\<open>Done\<close> returns the nil channel, and in no state of the store does a
  receive on the channel it returned proceed.
\<close>

theorem Done_before_Go_is_nil:
  assumes "exec nse (sys0 k) ls = Ok s" "list_all (\<lambda>l. \<not> is_Go l) ls"
  shows "Done (bi s) = None \<and> \<not> observable h (Done (bi s))"
proof -
  have "s = sys0 k"
    using no_Go_nothing_happens[OF _ assms(2) assms(1)] by (simp add: sys0_def)
  then show ?thesis by (simp add: sys0_def newBatch_def Done_def observable_def)
qed

theorem Done_before_Go_is_nil_witness:
  "exec id (sys0 1) [LDone, LDone] = Ok (sys0 1 :: nat sys) \<and>
   Done (bi (sys0 1 :: nat sys)) = None \<and>
   \<not> observable (empty_heap :: nat heap) (Done (bi (sys0 1 :: nat sys)))"
proof -
  have e: "exec id (sys0 1) [LDone, LDone] = Ok (sys0 1 :: nat sys)" by simp
  have g: "list_all (\<lambda>l. \<not> is_Go l) [LDone, LDone :: nat label]" by simp
  from Done_before_Go_is_nil[OF e g, of empty_heap] e show ?thesis by simp
qed

end
